theory Spec2Isabelle
  imports Main "HOL-Library.Monad_Syntax"
begin

section \<open>Tokens (tokens.go)\<close>

text \<open>
  \<^verbatim>\<open>type tokenType int\<close> with its constants numbered by \<^verbatim>\<open>iota\<close>: the kinds are the
  integers 0 to 104 in the order of the const block, the range markers
  (\<^verbatim>\<open>beginType\<close>, \<^verbatim>\<open>endType\<close>, ...) included. \<^verbatim>\<open>ERROR\<close> is 0, the zero value of the type.
  \<^verbatim>\<open>CONST\<close> and \<^verbatim>\<open>TYPE\<close> are written \<open>CONST'\<close> and \<open>TYPE'\<close>.
\<close>

type_synonym tokenType = nat

abbreviation (input) ERROR :: tokenType where "ERROR \<equiv> 0"
abbreviation (input) DOT :: tokenType where "DOT \<equiv> 1"
abbreviation (input) EQUAL :: tokenType where "EQUAL \<equiv> 2"
abbreviation (input) LPAREN :: tokenType where "LPAREN \<equiv> 3"
abbreviation (input) RPAREN :: tokenType where "RPAREN \<equiv> 4"
abbreviation (input) SLASH :: tokenType where "SLASH \<equiv> 5"
abbreviation (input) UNDERSCORE :: tokenType where "UNDERSCORE \<equiv> 6"
abbreviation (input) NAME :: tokenType where "NAME \<equiv> 7"
abbreviation (input) NUMBER :: tokenType where "NUMBER \<equiv> 8"
abbreviation (input) STRING :: tokenType where "STRING \<equiv> 9"
abbreviation (input) beginType :: tokenType where "beginType \<equiv> 10"
abbreviation (input) F32 :: tokenType where "F32 \<equiv> 11"
abbreviation (input) F64 :: tokenType where "F64 \<equiv> 12"
abbreviation (input) I32 :: tokenType where "I32 \<equiv> 13"
abbreviation (input) I64 :: tokenType where "I64 \<equiv> 14"
abbreviation (input) endType :: tokenType where "endType \<equiv> 15"
abbreviation (input) beginElemType :: tokenType where "beginElemType \<equiv> 16"
abbreviation (input) ANYFUNC :: tokenType where "ANYFUNC \<equiv> 17"
abbreviation (input) endElemType :: tokenType where "endElemType \<equiv> 18"
abbreviation (input) beginUnOp :: tokenType where "beginUnOp \<equiv> 19"
abbreviation (input) CLZ :: tokenType where "CLZ \<equiv> 20"
abbreviation (input) CTZ :: tokenType where "CTZ \<equiv> 21"
abbreviation (input) EQZ :: tokenType where "EQZ \<equiv> 22"
abbreviation (input) POPCNT :: tokenType where "POPCNT \<equiv> 23"
abbreviation (input) endUnOp :: tokenType where "endUnOp \<equiv> 24"
abbreviation (input) beginBinOp :: tokenType where "beginBinOp \<equiv> 25"
abbreviation (input) ADD :: tokenType where "ADD \<equiv> 26"
abbreviation (input) AND :: tokenType where "AND \<equiv> 27"
abbreviation (input) DIV :: tokenType where "DIV \<equiv> 28"
abbreviation (input) MUL :: tokenType where "MUL \<equiv> 29"
abbreviation (input) OR :: tokenType where "OR \<equiv> 30"
abbreviation (input) REM :: tokenType where "REM \<equiv> 31"
abbreviation (input) ROTL :: tokenType where "ROTL \<equiv> 32"
abbreviation (input) ROTR :: tokenType where "ROTR \<equiv> 33"
abbreviation (input) SHL :: tokenType where "SHL \<equiv> 34"
abbreviation (input) SHR :: tokenType where "SHR \<equiv> 35"
abbreviation (input) SUB :: tokenType where "SUB \<equiv> 36"
abbreviation (input) XOR :: tokenType where "XOR \<equiv> 37"
abbreviation (input) endBinOp :: tokenType where "endBinOp \<equiv> 38"
abbreviation (input) beginRelOp :: tokenType where "beginRelOp \<equiv> 39"
abbreviation (input) EQ :: tokenType where "EQ \<equiv> 40"
abbreviation (input) GE :: tokenType where "GE \<equiv> 41"
abbreviation (input) GT :: tokenType where "GT \<equiv> 42"
abbreviation (input) LE :: tokenType where "LE \<equiv> 43"
abbreviation (input) LT :: tokenType where "LT \<equiv> 44"
abbreviation (input) NE :: tokenType where "NE \<equiv> 45"
abbreviation (input) endRelOp :: tokenType where "endRelOp \<equiv> 46"
abbreviation (input) beginSign :: tokenType where "beginSign \<equiv> 47"
abbreviation (input) S :: tokenType where "S \<equiv> 48"
abbreviation (input) U :: tokenType where "U \<equiv> 49"
abbreviation (input) endSign :: tokenType where "endSign \<equiv> 50"
abbreviation (input) beginCvtOp :: tokenType where "beginCvtOp \<equiv> 51"
abbreviation (input) CONVERT :: tokenType where "CONVERT \<equiv> 52"
abbreviation (input) DEMOTE :: tokenType where "DEMOTE \<equiv> 53"
abbreviation (input) EXTEND :: tokenType where "EXTEND \<equiv> 54"
abbreviation (input) PROMOTE :: tokenType where "PROMOTE \<equiv> 55"
abbreviation (input) REINTERPRET :: tokenType where "REINTERPRET \<equiv> 56"
abbreviation (input) TRUNC :: tokenType where "TRUNC \<equiv> 57"
abbreviation (input) endCvtOp :: tokenType where "endCvtOp \<equiv> 58"
abbreviation (input) ALIGN :: tokenType where "ALIGN \<equiv> 59"
abbreviation (input) OFFSET :: tokenType where "OFFSET \<equiv> 60"
abbreviation (input) beginInstr :: tokenType where "beginInstr \<equiv> 61"
abbreviation (input) BLOCK :: tokenType where "BLOCK \<equiv> 62"
abbreviation (input) IF :: tokenType where "IF \<equiv> 63"
abbreviation (input) LOOP :: tokenType where "LOOP \<equiv> 64"
abbreviation (input) endInstr :: tokenType where "endInstr \<equiv> 65"
abbreviation (input) ELSE :: tokenType where "ELSE \<equiv> 66"
abbreviation (input) END :: tokenType where "END \<equiv> 67"
abbreviation (input) THEN :: tokenType where "THEN \<equiv> 68"
abbreviation (input) MUT :: tokenType where "MUT \<equiv> 69"
abbreviation (input) beginOp :: tokenType where "beginOp \<equiv> 70"
abbreviation (input) BR_IF :: tokenType where "BR_IF \<equiv> 71"
abbreviation (input) BR_TABLE :: tokenType where "BR_TABLE \<equiv> 72"
abbreviation (input) CALL :: tokenType where "CALL \<equiv> 73"
abbreviation (input) CALL_INDIRECT :: tokenType where "CALL_INDIRECT \<equiv> 74"
abbreviation (input) CONST' :: tokenType where "CONST' \<equiv> 75"
abbreviation (input) CURRENT_MEMORY :: tokenType where "CURRENT_MEMORY \<equiv> 76"
abbreviation (input) DROP :: tokenType where "DROP \<equiv> 77"
abbreviation (input) GET_GLOBAL :: tokenType where "GET_GLOBAL \<equiv> 78"
abbreviation (input) GET_LOCAL :: tokenType where "GET_LOCAL \<equiv> 79"
abbreviation (input) GROW_MEMORY :: tokenType where "GROW_MEMORY \<equiv> 80"
abbreviation (input) LOAD :: tokenType where "LOAD \<equiv> 81"
abbreviation (input) NOP :: tokenType where "NOP \<equiv> 82"
abbreviation (input) RETURN :: tokenType where "RETURN \<equiv> 83"
abbreviation (input) SELECT :: tokenType where "SELECT \<equiv> 84"
abbreviation (input) SET_GLOBAL :: tokenType where "SET_GLOBAL \<equiv> 85"
abbreviation (input) SET_LOCAL :: tokenType where "SET_LOCAL \<equiv> 86"
abbreviation (input) STORE :: tokenType where "STORE \<equiv> 87"
abbreviation (input) TEE_LOCAL :: tokenType where "TEE_LOCAL \<equiv> 88"
abbreviation (input) UNREACHABLE :: tokenType where "UNREACHABLE \<equiv> 89"
abbreviation (input) endOp :: tokenType where "endOp \<equiv> 90"
abbreviation (input) DATA :: tokenType where "DATA \<equiv> 91"
abbreviation (input) ELEM :: tokenType where "ELEM \<equiv> 92"
abbreviation (input) EXPORT :: tokenType where "EXPORT \<equiv> 93"
abbreviation (input) FUNC :: tokenType where "FUNC \<equiv> 94"
abbreviation (input) GLOBAL :: tokenType where "GLOBAL \<equiv> 95"
abbreviation (input) IMPORT :: tokenType where "IMPORT \<equiv> 96"
abbreviation (input) LOCAL :: tokenType where "LOCAL \<equiv> 97"
abbreviation (input) MEMORY :: tokenType where "MEMORY \<equiv> 98"
abbreviation (input) MODULE :: tokenType where "MODULE \<equiv> 99"
abbreviation (input) PARAM :: tokenType where "PARAM \<equiv> 100"
abbreviation (input) RESULT :: tokenType where "RESULT \<equiv> 101"
abbreviation (input) START :: tokenType where "START \<equiv> 102"
abbreviation (input) TABLE :: tokenType where "TABLE \<equiv> 103"
abbreviation (input) TYPE' :: tokenType where "TYPE' \<equiv> 104"

text \<open>
  \<^verbatim>\<open>type token struct { typ tokenType; text []byte }\<close>. The fields are written \<open>typ'\<close> and
  \<open>text'\<close>. A byte is a \<^typ>\<open>char\<close>, a byte slice a \<^typ>\<open>string\<close>; a nil slice and an empty one
  are both \<open>[]\<close>.
\<close>

record token =
  typ' :: tokenType
  text' :: string

definition zeroToken :: token where
  "zeroToken = \<lparr>typ' = ERROR, text' = []\<rparr>"

text \<open>The keyword table \<^verbatim>\<open>atom\<close>, a Go map with these 75 entries in source order.\<close>

definition atom_table :: "(string \<times> tokenType) list" where
  "atom_table =
    [(''i32'', I32),
     (''i64'', I64),
     (''f32'', F32),
     (''f64'', F64),
     (''anyfunc'', ANYFUNC),
     (''clz'', CLZ),
     (''ctz'', CTZ),
     (''eqz'', EQZ),
     (''popcnt'', POPCNT),
     (''add'', ADD),
     (''and'', AND),
     (''div'', DIV),
     (''mul'', MUL),
     (''or'', OR),
     (''rem'', REM),
     (''rotl'', ROTL),
     (''rotr'', ROTR),
     (''shl'', SHL),
     (''shr'', SHR),
     (''sub'', SUB),
     (''xor'', XOR),
     (''eq'', EQ),
     (''ge'', GE),
     (''gt'', GT),
     (''le'', LE),
     (''lt'', LT),
     (''ne'', NE),
     (''convert'', CONVERT),
     (''demote'', DEMOTE),
     (''extend'', EXTEND),
     (''promote'', PROMOTE),
     (''reinterpret'', REINTERPRET),
     (''trunc'', TRUNC),
     (''align'', ALIGN),
     (''mut'', MUT),
     (''offset'', OFFSET),
     (''block'', BLOCK),
     (''else'', ELSE),
     (''end'', END),
     (''if'', IF),
     (''loop'', LOOP),
     (''then'', THEN),
     (''br_if'', BR_IF),
     (''br_table'', BR_TABLE),
     (''call'', CALL),
     (''call_indirect'', CALL_INDIRECT),
     (''const'', CONST'),
     (''current_memory'', CURRENT_MEMORY),
     (''drop'', DROP),
     (''get_global'', GET_GLOBAL),
     (''get_local'', GET_LOCAL),
     (''grow_memory'', GROW_MEMORY),
     (''load'', LOAD),
     (''nop'', NOP),
     (''return'', RETURN),
     (''select'', SELECT),
     (''set_global'', SET_GLOBAL),
     (''set_local'', SET_LOCAL),
     (''store'', STORE),
     (''tee_local'', TEE_LOCAL),
     (''unreachable'', UNREACHABLE),
     (''data'', DATA),
     (''elem'', ELEM),
     (''export'', EXPORT),
     (''func'', FUNC),
     (''global'', GLOBAL),
     (''import'', IMPORT),
     (''local'', LOCAL),
     (''memory'', MEMORY),
     (''module'', MODULE),
     (''param'', PARAM),
     (''result'', RESULT),
     (''start'', START),
     (''table'', TABLE),
     (''type'', TYPE')]"

definition atom :: "string \<Rightarrow> tokenType option" where
  "atom = map_of atom_table"


section \<open>The scanner (lex.go)\<close>

subsection \<open>Runes and the library functions the scanner calls\<close>

text \<open>
  A rune is an integer; \<^verbatim>\<open>const eof rune = -1\<close>. \<open>rn c\<close> is the rune of an ASCII character
  literal. The characters that cannot stand inside a string literal of this theory are
  named.
\<close>

type_synonym rune = int

abbreviation (input) eof :: rune where "eof \<equiv> - 1"
abbreviation (input) rn :: "char \<Rightarrow> rune" where "rn c \<equiv> of_char c"

abbreviation (input) tab :: char where "tab \<equiv> CHR 0x09"
abbreviation (input) newline :: char where "newline \<equiv> CHR 0x0A"
abbreviation (input) dquote :: char where "dquote \<equiv> CHR 0x22"
abbreviation (input) squote :: char where "squote \<equiv> CHR 0x27"
abbreviation (input) backslash :: char where "backslash \<equiv> CHR 0x5C"
abbreviation (input) backquote :: char where "backquote \<equiv> CHR 0x60"

definition digits :: string where
  "digits = ''0123456789''"

definition hexDigits :: string where
  "hexDigits = ''0123456789abcdefABCDEF''"

definition letters :: string where
  "letters = ''abcedfghijklmnopqrstuvwxyzABCEDFGHIJKLMNOPQRSTUVWXYZ''"

definition symbols :: string where
  "symbols = ''+-*/'' @ [backslash] @ ''^~=<>!?@#$%&|:'' @ [backquote] @ ''.''"

definition name :: string where
  "name = letters @ digits @ symbols @ [squote] @ ''_''"

text \<open>
  \<^verbatim>\<open>containsRune(s, r)\<close>: false at \<^verbatim>\<open>eof\<close>, else \<^verbatim>\<open>strings.ContainsRune(s, r)\<close>. Every set the
  scanner passes is an ASCII string, where a rune is contained iff it is the rune of one
  of the bytes.
\<close>

definition containsRune :: "string \<Rightarrow> rune \<Rightarrow> bool" where
  "containsRune s r = (if r = eof then False else r \<in> set (map rn s))"

text \<open>
  \<^verbatim>\<open>string(r)\<close>, the UTF-8 encoding of a rune (\<^verbatim>\<open>utf8.EncodeRune\<close>): one to four bytes, and
  the three bytes of U+FFFD for a surrogate or a value above U+10FFFF.
\<close>

definition encodeRune :: "nat \<Rightarrow> string" where
  "encodeRune n =
     (if n < 0x80 then [char_of n]
      else if n < 0x800 then [char_of (0xC0 + n div 0x40), char_of (0x80 + n mod 0x40)]
      else if (0xD800 \<le> n \<and> n \<le> 0xDFFF) \<or> 0x10FFFF < n then [CHR 0xEF, CHR 0xBF, CHR 0xBD]
      else if n < 0x10000 then
        [char_of (0xE0 + n div 0x1000), char_of (0x80 + n div 0x40 mod 0x40),
         char_of (0x80 + n mod 0x40)]
      else
        [char_of (0xF0 + n div 0x40000), char_of (0x80 + n div 0x1000 mod 0x40),
         char_of (0x80 + n div 0x40 mod 0x40), char_of (0x80 + n mod 0x40)])"

text \<open>
  The Unicode tables of Go's library are not part of the repository. On ASCII the three
  predicates the scanner needs are fixed (letters, decimal digits, the printable range
  U+0020 to U+007E); from U+0080 on they are a parameter of the model, and every general
  theorem below holds for all tables.
\<close>

record unicode =
  LetterAbove :: "nat \<Rightarrow> bool"
  DigitAbove :: "nat \<Rightarrow> bool"
  PrintAbove :: "nat \<Rightarrow> bool"

definition IsLetter :: "unicode \<Rightarrow> rune \<Rightarrow> bool" where
  "IsLetter uni r =
     (if r < 0 then False
      else if r < 0x80 then (rn CHR ''A'' \<le> r \<and> r \<le> rn CHR ''Z'') \<or> (rn CHR ''a'' \<le> r \<and> r \<le> rn CHR ''z'')
      else LetterAbove uni (nat r))"

definition IsDigit :: "unicode \<Rightarrow> rune \<Rightarrow> bool" where
  "IsDigit uni r =
     (if r < 0 then False
      else if r < 0x80 then rn CHR ''0'' \<le> r \<and> r \<le> rn CHR ''9''
      else DigitAbove uni (nat r))"

definition IsPrint :: "unicode \<Rightarrow> rune \<Rightarrow> bool" where
  "IsPrint uni r =
     (if r < 0 then False
      else if r < 0x80 then 0x20 \<le> r \<and> r \<le> 0x7E
      else PrintAbove uni (nat r))"

text \<open>Tables that classify nothing above ASCII, for evaluations on ASCII text.\<close>

definition asciiTables :: unicode where
  "asciiTables = \<lparr>LetterAbove = (\<lambda>_. False), DigitAbove = (\<lambda>_. False), PrintAbove = (\<lambda>_. False)\<rparr>"

text \<open>\<^verbatim>\<open>isAlphaNumeric\<close>: an underscore, a letter or a digit.\<close>

definition isAlphaNumeric :: "unicode \<Rightarrow> rune \<Rightarrow> bool" where
  "isAlphaNumeric uni r = (r = rn CHR ''_'' \<or> IsLetter uni r \<or> IsDigit uni r)"

text \<open>
  \<^verbatim>\<open>fmt.Sprintf("%#U", r)\<close>: \<^verbatim>\<open>U+\<close>, the value in upper-case hexadecimal on at least four
  digits and, for a printable rune, the rune between single quotes. The argument is
  converted to an unsigned 64-bit value first, so \<^verbatim>\<open>eof\<close> prints as sixteen \<^verbatim>\<open>F\<close>.
\<close>

definition hexDigitU :: "nat \<Rightarrow> char" where
  "hexDigitU d = ''0123456789ABCDEF'' ! (d mod 16)"

function hexU :: "int \<Rightarrow> string" where
  "hexU n =
     (if n < 16 then [hexDigitU (nat n)] else hexU (n div 16) @ [hexDigitU (nat (n mod 16))])"
  by pat_completeness auto
termination
  by (relation "measure nat") auto

declare hexU.simps [simp del]

definition fmtU :: "unicode \<Rightarrow> rune \<Rightarrow> string" where
  "fmtU uni r =
     (let u = (if r < 0 then 2 ^ 64 + r else r);
          h = hexU u
      in ''U+'' @ replicate (4 - length h) CHR ''0'' @ h @
         (if u \<le> 0x10FFFF \<and> IsPrint uni u then '' '' @ [squote] @ encodeRune (nat u) @ [squote]
          else []))"

subsection \<open>The lexer's state\<close>

text \<open>
  What one successful call of \<^verbatim>\<open>ReadRune\<close> delivers: a rune decoded from its UTF-8 encoding,
  with the length of that encoding as size, or, for a byte that starts no valid encoding,
  U+FFFD with size 1. The input of the scanner is the sequence of these deliveries, so it
  ranges over all byte streams, well-formed or not.
\<close>

datatype readRune = Decoded nat | InvalidByte

fun runeOf :: "readRune \<Rightarrow> nat" where
  "runeOf (Decoded n) = n"
| "runeOf InvalidByte = 0xFFFD"

fun sizeOf :: "readRune \<Rightarrow> nat" where
  "sizeOf (Decoded n) = length (encodeRune n)"
| "sizeOf InvalidByte = 1"

text \<open>
  \<^verbatim>\<open>type lexer struct\<close>. The \<^verbatim>\<open>bufio.Reader\<close> field \<^verbatim>\<open>r\<close> is the pair \<open>src\<close>, \<open>off\<close>: what
  \<^verbatim>\<open>ReadRune\<close> delivers, in order, and how many of the deliveries are consumed. Past the last
  one \<^verbatim>\<open>ReadRune\<close> returns \<^verbatim>\<open>io.EOF\<close>, the only read error of this model, so \<open>readErr\<close> is a
  flag. The field \<^verbatim>\<open>state\<close> is the argument of \<open>lexLoop\<close> below.
\<close>

record lexer =
  src :: "readRune list"
  off :: nat
  readErr :: bool
  token :: string
  runeSize :: nat
  tokens :: "token list"

definition newLexer :: "readRune list \<Rightarrow> lexer" where
  "newLexer rs = \<lparr>src = rs, off = 0, readErr = False, token = [], runeSize = 0, tokens = []\<rparr>"

text \<open>
  \<^verbatim>\<open>read\<close>: the next rune, with \<^verbatim>\<open>string(r)\<close> appended to the pending text and the delivered
  size kept in \<open>runeSize\<close>; at the end of the input \<^verbatim>\<open>eof\<close>, with \<open>readErr\<close> set.
\<close>

definition lexer_read :: "lexer \<Rightarrow> rune \<times> lexer" where
  "lexer_read l =
     (if off l < length (src l) then
        (int (runeOf (src l ! off l)),
         l\<lparr>off := off l + 1, token := token l @ encodeRune (runeOf (src l ! off l)),
           runeSize := sizeOf (src l ! off l)\<rparr>)
      else (eof, l\<lparr>readErr := True, runeSize := 0\<rparr>))"

text \<open>
  \<^verbatim>\<open>unread\<close>: nothing after a failed read; a panic (\<open>None\<close>) when no rune is there to step
  back over, or when the pending text is shorter than that rune; else one rune back.
\<close>

definition lexer_unread :: "lexer \<Rightarrow> lexer option" where
  "lexer_unread l =
     (if readErr l then Some l
      else if runeSize l = 0 then None
      else if length (token l) < runeSize l then None
      else Some (l\<lparr>off := off l - 1, token := take (length (token l) - runeSize l) (token l),
                   runeSize := 0\<rparr>))"

definition lexer_peek :: "lexer \<Rightarrow> (rune \<times> lexer) option" where
  "lexer_peek l =
     (case lexer_read l of (r, l1) \<Rightarrow>
        do { l2 \<leftarrow> lexer_unread l1; Some (r, l2) })"

definition lexer_accept :: "string \<Rightarrow> lexer \<Rightarrow> (bool \<times> lexer) option" where
  "lexer_accept valid l =
     (case lexer_read l of (r, l1) \<Rightarrow>
        if containsRune valid r then Some (True, l1)
        else do { l2 \<leftarrow> lexer_unread l1; Some (False, l2) })"

text \<open>
  The loop \<^verbatim>\<open>for containsRune(valid, l.read()) {}\<close> of \<^verbatim>\<open>acceptRun\<close> and \<^verbatim>\<open>discardRun\<close>: it
  stops after the first read that is not in the set.
\<close>

function readRun :: "string \<Rightarrow> lexer \<Rightarrow> lexer" where
  "readRun valid l =
     (case lexer_read l of (r, l1) \<Rightarrow>
        if containsRune valid r then readRun valid l1 else l1)"
  by pat_completeness auto
termination
  by (relation "measure (\<lambda>(valid, l). length (src l) - off l)")
     (auto simp: lexer_read_def containsRune_def split: if_splits)

declare readRun.simps [simp del]

definition acceptRun :: "string \<Rightarrow> lexer \<Rightarrow> lexer option" where
  "acceptRun valid l = lexer_unread (readRun valid l)"

definition discardRun :: "string \<Rightarrow> lexer \<Rightarrow> lexer option" where
  "discardRun valid l =
     do { l1 \<leftarrow> lexer_unread (readRun valid l); Some (l1\<lparr>token := []\<rparr>) }"

definition emit :: "tokenType \<Rightarrow> lexer \<Rightarrow> lexer" where
  "emit t l = l\<lparr>tokens := tokens l @ [\<lparr>typ' = t, text' = token l\<rparr>], token := [], runeSize := 0\<rparr>"


subsection \<open>The state functions\<close>

text \<open>
  \<^verbatim>\<open>type stateFn func(*lexer) stateFn\<close>: a state is one of the six state functions; the nil
  state is \<open>None\<close>. A state function returns the next state and the lexer, or \<open>None\<close> when it
  panics.
\<close>

datatype stateFn = LexAny | LexRightDelim | LexAtom | LexName | LexString | LexNumber

text \<open>\<^verbatim>\<open>errorf\<close>: appends the \<^verbatim>\<open>ERROR\<close> token with the formatted message and returns nil.\<close>

definition errorf :: "string \<Rightarrow> lexer \<Rightarrow> stateFn option \<times> lexer" where
  "errorf msg l = (None, l\<lparr>tokens := tokens l @ [\<lparr>typ' = ERROR, text' = msg\<rparr>]\<rparr>)"

definition lexAny :: "unicode \<Rightarrow> lexer \<Rightarrow> (stateFn option \<times> lexer) option" where
  "lexAny uni l =
     do {
       l1 \<leftarrow> discardRun [tab, CHR '' ''] l;
       case lexer_read l1 of (r, l2) \<Rightarrow>
         if containsRune letters r then Some (Some LexAtom, l2)
         else if r = rn CHR ''('' then Some (Some LexAny, emit LPAREN l2)
         else if r = rn CHR '')'' then Some (Some LexAny, emit RPAREN l2)
         else if r = rn CHR ''_'' then Some (Some LexAny, emit UNDERSCORE l2)
         else if r = rn CHR ''='' then Some (Some LexAny, emit EQUAL l2)
         else if r = rn CHR ''/'' then Some (Some LexAny, emit SLASH l2)
         else if r = rn CHR ''.'' then Some (Some LexAny, emit DOT l2)
         else if r = rn CHR ''$'' then Some (Some LexName, l2)
         else if r = rn dquote then Some (Some LexString, l2)
         else if r = rn CHR ''+'' \<or> r = rn CHR ''-'' \<or> (rn CHR ''0'' \<le> r \<and> r \<le> rn CHR ''9'') then
           do { l3 \<leftarrow> lexer_unread l2; Some (Some LexNumber, l3) }
         else if r = rn newline then Some (Some LexAny, l2)
         else if r = eof then Some (None, l2)
         else Some (errorf (''unexpected character: '' @ fmtU uni r) l2)
     }"

text \<open>
  \<^verbatim>\<open>lexRightDelim\<close>. The set is \<^verbatim>\<open>" \n\t()"\<close>; the message quotes the Go string
  \<^verbatim>\<open>" \\n\\t()"\<close> with \<^verbatim>\<open>%q\<close>, which doubles its two backslashes.
\<close>

definition lexRightDelim :: "unicode \<Rightarrow> lexer \<Rightarrow> (stateFn option \<times> lexer) option" where
  "lexRightDelim uni l =
     do {
       (ok, l1) \<leftarrow> lexer_accept ([CHR '' '', newline, tab] @ ''()'') l;
       if ok then do { l2 \<leftarrow> lexer_unread l1; Some (Some LexAny, l2) }
       else do {
         (r, l2) \<leftarrow> lexer_peek l1;
         if r \<noteq> eof then
           do {
             (r', l3) \<leftarrow> lexer_peek l2;
             Some (errorf (''unexpected character '' @ fmtU uni r' @ '', expected one of '' @
                     [dquote, CHR '' '', backslash, backslash, CHR ''n'', backslash, backslash,
                      CHR ''t'', CHR ''('', CHR '')'', dquote]) l3)
           }
         else do { l3 \<leftarrow> lexer_unread l2; Some (Some LexAny, l3) }
       }
     }"

text \<open>\<^verbatim>\<open>bytes.HasSuffix\<close> and \<^verbatim>\<open>bytes.TrimSuffix\<close>.\<close>

definition HasSuffix :: "string \<Rightarrow> string \<Rightarrow> bool" where
  "HasSuffix s suffix =
     (length suffix \<le> length s \<and> drop (length s - length suffix) s = suffix)"

definition TrimSuffix :: "string \<Rightarrow> string \<Rightarrow> string" where
  "TrimSuffix s suffix = (if HasSuffix s suffix then take (length s - length suffix) s else s)"

text \<open>
  \<^verbatim>\<open>lexAtom\<close>. In the two suffix cases the three tokens are appended directly (the pending
  text is left as it is); a suffixed atom whose prefix is no keyword leaves the switch and
  reaches the error below it.
\<close>

definition lexAtom :: "lexer \<Rightarrow> (stateFn option \<times> lexer) option" where
  "lexAtom l =
     do {
       l1 \<leftarrow> acceptRun (letters @ digits @ ''_'') l;
       let unexpected = errorf (''unexpected token: '' @ token l1) l1 in
       if HasSuffix (token l1) ''_s'' then
         (case atom (TrimSuffix (token l1) ''_s'') of
            Some t \<Rightarrow>
              Some (Some LexAny,
                l1\<lparr>tokens := tokens l1 @
                  [\<lparr>typ' = t, text' = TrimSuffix (token l1) ''_s''\<rparr>,
                   \<lparr>typ' = UNDERSCORE, text' = ''_''\<rparr>, \<lparr>typ' = S, text' = ''s''\<rparr>]\<rparr>)
          | None \<Rightarrow> Some unexpected)
       else if HasSuffix (token l1) ''_u'' then
         (case atom (TrimSuffix (token l1) ''_u'') of
            Some t \<Rightarrow>
              Some (Some LexAny,
                l1\<lparr>tokens := tokens l1 @
                  [\<lparr>typ' = t, text' = TrimSuffix (token l1) ''_u''\<rparr>,
                   \<lparr>typ' = UNDERSCORE, text' = ''_''\<rparr>, \<lparr>typ' = U, text' = ''u''\<rparr>]\<rparr>)
          | None \<Rightarrow> Some unexpected)
       else
         (case atom (token l1) of
            Some t \<Rightarrow> Some (Some LexAny, emit t l1)
          | None \<Rightarrow> Some unexpected)
     }"

definition lexName :: "unicode \<Rightarrow> lexer \<Rightarrow> (stateFn option \<times> lexer) option" where
  "lexName uni l =
     do {
       (ok, l1) \<leftarrow> lexer_accept name l;
       if \<not> ok then
         do {
           (r, l2) \<leftarrow> lexer_peek l1;
           Some (errorf (''unexpected character in name literal: '' @ fmtU uni r) l2)
         }
       else do { l2 \<leftarrow> acceptRun name l1; Some (Some LexRightDelim, emit NAME l2) }
     }"

text \<open>
  The second case of the switch in \<^verbatim>\<open>lexString\<close>, whose condition reads input:
  \<^verbatim>\<open>r == '\\' && !l.accept(`nt\'"`) && !(l.accept(hexDigits) && l.accept(hexDigits))\<close>,
  evaluated from left to right and only as far as needed.
\<close>

definition illegalEscape :: "rune \<Rightarrow> lexer \<Rightarrow> (bool \<times> lexer) option" where
  "illegalEscape r l =
     (if r \<noteq> rn backslash then Some (False, l)
      else do {
        (a, l1) \<leftarrow> lexer_accept (''nt'' @ [backslash, squote, dquote]) l;
        if a then Some (False, l1)
        else do {
          (h1, l2) \<leftarrow> lexer_accept hexDigits l1;
          if \<not> h1 then Some (True, l2)
          else do { (h2, l3) \<leftarrow> lexer_accept hexDigits l2; Some (\<not> h2, l3) }
        }
      })"


text \<open>Reading never moves the reader backwards; the loop of \<open>lexString\<close> ends for that reason.\<close>

lemma lexer_accept_adv:
  "lexer_accept v l = Some (b, l') \<Longrightarrow> src l' = src l \<and> off l \<le> off l'"
  by (auto simp: lexer_accept_def lexer_read_def lexer_unread_def bind_eq_Some_conv
           split: if_splits)

lemma illegalEscape_adv:
  "illegalEscape r l = Some (b, l') \<Longrightarrow> src l' = src l \<and> off l \<le> off l'"
  unfolding illegalEscape_def
  by (auto simp: bind_eq_Some_conv split: if_splits dest!: lexer_accept_adv)

text \<open>
  \<^verbatim>\<open>lexString\<close>: the loop \<^verbatim>\<open>for l.readErr == nil\<close> with its switch, whose cases are tried in
  the order of the source: the closing quote, the illegal escape, the raw newline or end
  of input, the control character, and by default the next iteration.
\<close>

function lexString :: "unicode \<Rightarrow> lexer \<Rightarrow> (stateFn option \<times> lexer) option" where
  "lexString uni l =
     (if readErr l then Some (None, l)
      else case lexer_read l of (r, l1) \<Rightarrow>
        if r = rn dquote then Some (Some LexRightDelim, emit STRING l1)
        else
          (case illegalEscape r l1 of
             None \<Rightarrow> None
           | Some (bad, l2) \<Rightarrow>
               if bad then
                 Some (errorf (''illegal escape in string literal: '' @ fmtU uni r) l2)
               else if r = rn newline \<or> r = eof then
                 Some (errorf ''unclosed string literal'' l2)
               else if (0x00 \<le> r \<and> r \<le> 0x1f) \<or> r = 0x7f then
                 Some (errorf (''illegal control character in string literal: '' @ fmtU uni r) l2)
               else lexString uni l2))"
  by pat_completeness auto
termination
  by (relation "measure (\<lambda>(uni, l). length (src l) - off l)")
     (auto simp: lexer_read_def split: if_splits dest!: illegalEscape_adv)

declare lexString.simps [simp del]

text \<open>\<^verbatim>\<open>scanNumber\<close> and \<^verbatim>\<open>lexNumber\<close>.\<close>

definition scanNumber :: "unicode \<Rightarrow> lexer \<Rightarrow> (bool \<times> lexer) option" where
  "scanNumber uni l =
     do {
       (sign, l1) \<leftarrow> lexer_accept ''+-'' l;
       (zero, l2) \<leftarrow> lexer_accept ''0'' l1;
       (hex, l3) \<leftarrow> (if zero then lexer_accept ''xX'' l2 else Some (False, l2));
       let d = (if hex then hexDigits else digits) in
       do {
         l4 \<leftarrow> acceptRun d l3;
         (dot, l5) \<leftarrow> lexer_accept ''.'' l4;
         l6 \<leftarrow> (if dot then acceptRun d l5 else Some l5);
         (e, l7) \<leftarrow> lexer_accept ''eE'' l6;
         l8 \<leftarrow> (if e then do { (esign, l') \<leftarrow> lexer_accept ''+-'' l7; acceptRun digits l' }
                else Some l7);
         (r, l9) \<leftarrow> lexer_peek l8;
         Some (\<not> isAlphaNumeric uni r, l9)
       }
     }"

definition lexNumber :: "unicode \<Rightarrow> lexer \<Rightarrow> (stateFn option \<times> lexer) option" where
  "lexNumber uni l =
     do {
       (ok, l1) \<leftarrow> scanNumber uni l;
       if \<not> ok then
         do {
           (r, l2) \<leftarrow> lexer_peek l1;
           Some (errorf (''unexpected character in number literal: '' @ fmtU uni r) l2)
         }
       else Some (Some LexRightDelim, emit NUMBER l1)
     }"

text \<open>Calling a state: \<^verbatim>\<open>l.state(l)\<close>.\<close>

fun step :: "unicode \<Rightarrow> stateFn \<Rightarrow> lexer \<Rightarrow> (stateFn option \<times> lexer) option" where
  "step uni LexAny l = lexAny uni l"
| "step uni LexRightDelim l = lexRightDelim uni l"
| "step uni LexAtom l = lexAtom l"
| "step uni LexName l = lexName uni l"
| "step uni LexString l = lexString uni l"
| "step uni LexNumber l = lexNumber uni l"


subsection \<open>The loop of \<open>lex\<close> and its termination\<close>

text \<open>
  Facts about a call that ends with \<open>readErr\<close> unset: the end of the input was not met, so
  every \<^verbatim>\<open>unread\<close> stepped back over the rune just read and the reader never moved
  backwards.
\<close>

lemma encodeRune_nonempty: "encodeRune n \<noteq> []"
  by (simp add: encodeRune_def)

lemma sizeOf_bounds: "0 < sizeOf x \<and> sizeOf x \<le> length (encodeRune (runeOf x))"
  by (cases x) (simp_all add: encodeRune_def)

lemma sizeOf_le_add: "sizeOf x \<le> k + length (encodeRune (runeOf x))"
  using sizeOf_bounds[of x] by simp

lemma accept_noerr:
  assumes "lexer_accept v l = Some (b, l')" and "\<not> readErr l'"
  shows "src l' = src l \<and> \<not> readErr l \<and> off l < length (src l) \<and>
         b = containsRune v (int (runeOf (src l ! off l))) \<and> off l' = (if b then off l + 1 else off l)"
  using assms
  by (auto simp: lexer_accept_def lexer_read_def lexer_unread_def bind_eq_Some_conv
           split: if_splits)

lemma peek_noerr:
  assumes "lexer_peek l = Some (r, l')" and "\<not> readErr l'"
  shows "src l' = src l \<and> \<not> readErr l \<and> off l < length (src l) \<and>
         r = int (runeOf (src l ! off l)) \<and> off l' = off l"
  using assms
  by (auto simp: lexer_peek_def lexer_read_def lexer_unread_def bind_eq_Some_conv
           split: if_splits)

lemma readRun_noerr:
  "\<not> readErr (readRun v l) \<Longrightarrow>
     src (readRun v l) = src l \<and> \<not> readErr l \<and> off l < off (readRun v l) \<and>
     (off l < length (src l) \<and> containsRune v (int (runeOf (src l ! off l))) \<longrightarrow>
        off l + 1 < off (readRun v l))"
proof (induction v l rule: readRun.induct)
  case (1 valid l)
  obtain r l1 where rd: "lexer_read l = (r, l1)" by (cases "lexer_read l")
  show ?case
  proof (cases "containsRune valid r")
    case True
    with rd have eq: "readRun valid l = readRun valid l1"
      by (subst readRun.simps) simp
    from "1.IH"[OF rd[symmetric] True] "1.prems" eq
    have ih: "src (readRun valid l1) = src l1 \<and> \<not> readErr l1 \<and> off l1 < off (readRun valid l1)"
      by simp
    from rd ih have "src l1 = src l \<and> \<not> readErr l \<and> off l1 = off l + 1"
      by (auto simp: lexer_read_def split: if_splits)
    with ih eq show ?thesis by simp
  next
    case False
    with rd have eq: "readRun valid l = l1"
      by (subst readRun.simps) simp
    from "1.prems" have "\<not> readErr l1" unfolding eq .
    with rd False show ?thesis unfolding eq
      by (auto simp: lexer_read_def split: if_splits)
  qed
qed

lemma acceptRun_noerr:
  assumes "acceptRun v l = Some l'" and "\<not> readErr l'"
  shows "src l' = src l \<and> \<not> readErr l \<and> off l \<le> off l' \<and>
         (off l < length (src l) \<and> containsRune v (int (runeOf (src l ! off l))) \<longrightarrow> off l < off l')"
proof -
  from assms have u: "lexer_unread (readRun v l) = Some l'" by (simp add: acceptRun_def)
  with assms(2) have ne: "\<not> readErr (readRun v l)"
    by (auto simp: lexer_unread_def split: if_splits)
  from u ne have "src l' = src (readRun v l) \<and> off l' = off (readRun v l) - 1"
    by (auto simp: lexer_unread_def split: if_splits)
  with readRun_noerr[OF ne] show ?thesis by auto
qed


lemma discardRun_noerr:
  assumes "discardRun v l = Some l'" and "\<not> readErr l'"
  shows "src l' = src l \<and> \<not> readErr l \<and> off l \<le> off l'"
proof -
  from assms obtain l1 where a: "acceptRun v l = Some l1" and l': "l' = l1\<lparr>token := []\<rparr>"
    by (auto simp: discardRun_def acceptRun_def bind_eq_Some_conv)
  from assms(2) l' have "\<not> readErr l1" by simp
  from acceptRun_noerr[OF a this] l' show ?thesis by simp
qed

text \<open>
  The measure of the loop. A state function consumes input or moves to a state of lower
  rank; \<open>lexNumber\<close> is entered from \<open>lexAny\<close> without consuming, but then starts with a sign
  or a digit, which it consumes.
\<close>

definition remaining :: "lexer \<Rightarrow> nat" where
  "remaining l = length (src l) - off l"

definition numberAhead :: "lexer \<Rightarrow> bool" where
  "numberAhead l =
     (off l < length (src l) \<and>
      (int (runeOf (src l ! off l)) = rn CHR ''+'' \<or> int (runeOf (src l ! off l)) = rn CHR ''-'' \<or>
       (rn CHR ''0'' \<le> int (runeOf (src l ! off l)) \<and> int (runeOf (src l ! off l)) \<le> rn CHR ''9'')))"

fun lexMeasure :: "stateFn \<Rightarrow> lexer \<Rightarrow> nat" where
  "lexMeasure LexAny l = 3 * remaining l + 1"
| "lexMeasure LexNumber l = (if numberAhead l then 3 * remaining l else 3 * remaining l + 3)"
| "lexMeasure s l = 3 * remaining l + 2"

lemma emit_fields [simp]:
  "src (emit t l) = src l" "off (emit t l) = off l" "readErr (emit t l) = readErr l"
  by (simp_all add: emit_def)

lemma lexAny_adv:
  assumes "lexAny uni l = Some (Some s, l')" and "\<not> readErr l'"
  shows "lexMeasure s l' < lexMeasure LexAny l"
proof -
  from assms(1) obtain l1 where d: "discardRun [tab, CHR '' ''] l = Some l1"
    by (auto simp: lexAny_def bind_eq_Some_conv)
  obtain r l2 where rd: "lexer_read l1 = (r, l2)" by (cases "lexer_read l1")
  from assms(1) d rd have body:
    "(if containsRune letters r then Some (Some LexAtom, l2)
         else if r = rn CHR ''('' then Some (Some LexAny, emit LPAREN l2)
         else if r = rn CHR '')'' then Some (Some LexAny, emit RPAREN l2)
         else if r = rn CHR ''_'' then Some (Some LexAny, emit UNDERSCORE l2)
         else if r = rn CHR ''='' then Some (Some LexAny, emit EQUAL l2)
         else if r = rn CHR ''/'' then Some (Some LexAny, emit SLASH l2)
         else if r = rn CHR ''.'' then Some (Some LexAny, emit DOT l2)
         else if r = rn CHR ''$'' then Some (Some LexName, l2)
         else if r = rn dquote then Some (Some LexString, l2)
         else if r = rn CHR ''+'' \<or> r = rn CHR ''-'' \<or> (rn CHR ''0'' \<le> r \<and> r \<le> rn CHR ''9'') then
           do { l3 \<leftarrow> lexer_unread l2; Some (Some LexNumber, l3) }
         else if r = rn newline then Some (Some LexAny, l2)
         else if r = eof then Some (None, l2)
         else Some (errorf (''unexpected character: '' @ fmtU uni r) l2)) = Some (Some s, l')"
    by (simp add: lexAny_def)
  have ne2: "\<not> readErr l2"
    using body assms(2)
    by (auto simp: errorf_def lexer_unread_def bind_eq_Some_conv split: if_splits)
  with rd have r2: "src l2 = src l1 \<and> \<not> readErr l1 \<and> off l1 < length (src l1) \<and>
      r = int (runeOf (src l1 ! off l1)) \<and> off l2 = off l1 + 1 \<and> 0 < runeSize l2 \<and>
      runeSize l2 \<le> length (token l2)"
    by (auto simp: lexer_read_def sizeOf_bounds sizeOf_le_add split: if_splits)
  with discardRun_noerr[OF d] have r1: "src l1 = src l \<and> off l \<le> off l1" by simp
  show ?thesis
    using body r1 r2 ne2
    by (auto simp: remaining_def numberAhead_def errorf_def lexer_unread_def bind_eq_Some_conv
             split: if_splits)
qed


lemma unread_noerr:
  assumes "lexer_unread l = Some l'" and "\<not> readErr l'"
  shows "src l' = src l \<and> \<not> readErr l \<and> off l' = off l - 1"
  using assms by (auto simp: lexer_unread_def split: if_splits)

lemma lexRightDelim_adv:
  assumes "lexRightDelim uni l = Some (Some s, l')" and "\<not> readErr l'"
  shows "lexMeasure s l' < lexMeasure LexRightDelim l"
proof -
  from assms(1) obtain ok l1 where
    a: "lexer_accept ([CHR '' '', newline, tab] @ ''()'') l = Some (ok, l1)"
    by (auto simp: lexRightDelim_def bind_eq_Some_conv)
  show ?thesis
  proof (cases ok)
    case True
    with assms(1) a obtain l2 where u: "lexer_unread l1 = Some l2" and s: "s = LexAny" "l' = l2"
      by (auto simp: lexRightDelim_def bind_eq_Some_conv)
    from unread_noerr[OF u] assms(2) s have 1: "src l2 = src l1 \<and> \<not> readErr l1 \<and> off l2 = off l1 - 1"
      by simp
    with accept_noerr[OF a] True have "src l2 = src l \<and> off l2 = off l" by simp
    with s show ?thesis by (simp add: remaining_def)
  next
    case False
    with assms(1) a obtain r l2 where p: "lexer_peek l1 = Some (r, l2)"
      by (auto simp: lexRightDelim_def bind_eq_Some_conv)
    with assms(1) a False obtain l3 where r: "r = eof" and u: "lexer_unread l2 = Some l3"
      and s: "s = LexAny" "l' = l3"
      by (auto simp: lexRightDelim_def errorf_def bind_eq_Some_conv split: if_splits)
    from unread_noerr[OF u] assms(2) s have "\<not> readErr l2" by simp
    from peek_noerr[OF p this] r show ?thesis by simp
  qed
qed

lemma lexAtom_adv:
  assumes "lexAtom l = Some (Some s, l')" and "\<not> readErr l'"
  shows "lexMeasure s l' < lexMeasure LexAtom l"
proof -
  from assms(1) obtain l1 where a: "acceptRun (letters @ digits @ ''_'') l = Some l1"
    by (auto simp: lexAtom_def bind_eq_Some_conv)
  with assms have "s = LexAny \<and> src l' = src l1 \<and> off l' = off l1 \<and> readErr l' = readErr l1"
    by (auto simp: lexAtom_def errorf_def Let_def split: if_splits option.splits)
  with acceptRun_noerr[OF a] assms(2) show ?thesis
    by (auto simp: remaining_def)
qed

lemma lexName_adv:
  assumes "lexName uni l = Some (Some s, l')" and "\<not> readErr l'"
  shows "lexMeasure s l' < lexMeasure LexName l"
proof -
  from assms(1) obtain ok l1 where a: "lexer_accept name l = Some (ok, l1)"
    by (auto simp: lexName_def bind_eq_Some_conv)
  with assms(1) obtain l2 where ok: ok and r: "acceptRun name l1 = Some l2"
    and s: "s = LexRightDelim" "l' = emit NAME l2"
    by (auto simp: lexName_def errorf_def bind_eq_Some_conv split: if_splits)
  from s assms(2) have "\<not> readErr l2" by simp
  from acceptRun_noerr[OF r this] have 2: "src l2 = src l1 \<and> \<not> readErr l1 \<and> off l1 \<le> off l2"
    by simp
  with accept_noerr[OF a] ok have "src l1 = src l \<and> off l < length (src l) \<and> off l1 = off l + 1"
    by simp
  with 2 s show ?thesis by (auto simp: remaining_def)
qed

lemma lexString_adv':
  "lexString uni l = Some (Some s, l') \<Longrightarrow> \<not> readErr l' \<Longrightarrow>
     s = LexRightDelim \<and> src l' = src l \<and> off l < off l' \<and> off l < length (src l)"
proof (induction uni l rule: lexString.induct)
  case (1 uni l)
  obtain r l1 where rd: "lexer_read l = (r, l1)" by (cases "lexer_read l")
  from "1.prems"(1) have ne: "\<not> readErr l"
    by (subst (asm) lexString.simps) (auto split: if_splits)
  show ?case
  proof (cases "r = rn dquote")
    case True
    with "1.prems" rd ne have "s = LexRightDelim \<and> l' = emit STRING l1"
      by (subst (asm) lexString.simps) auto
    with rd True "1.prems"(2) show ?thesis
      by (auto simp: lexer_read_def split: if_splits)
  next
    case False
    with "1.prems"(1) rd ne obtain bad l2 where ie: "illegalEscape r l1 = Some (bad, l2)"
      by (subst (asm) lexString.simps) (auto split: option.splits)
    with "1.prems"(1) rd ne False have c: "\<not> bad" "\<not> (r = rn newline \<or> r = eof)"
      "\<not> ((0x00 \<le> r \<and> r \<le> 0x1f) \<or> r = 0x7f)" and rec: "lexString uni l2 = Some (Some s, l')"
      by (subst (asm) lexString.simps, auto simp: errorf_def split: if_splits)+
    from "1.IH"[OF ne rd[symmetric] False ie refl c rec "1.prems"(2)]
    have ih: "s = LexRightDelim \<and> src l' = src l2 \<and> off l2 < off l' \<and> off l2 < length (src l2)" .
    from rd c(2) have "src l1 = src l \<and> off l < length (src l) \<and> off l1 = off l + 1"
      by (auto simp: lexer_read_def split: if_splits)
    with illegalEscape_adv[OF ie] ih show ?thesis by auto
  qed
qed

lemma lexString_adv:
  assumes "lexString uni l = Some (Some s, l')" and "\<not> readErr l'"
  shows "lexMeasure s l' < lexMeasure LexString l"
  using lexString_adv'[OF assms] by (auto simp: remaining_def)


lemma containsRune_digits:
  "rn CHR ''0'' \<le> r \<Longrightarrow> r \<le> rn CHR ''9'' \<Longrightarrow> containsRune digits r"
  by (simp add: containsRune_def digits_def) arith

lemma scanNumber_adv:
  assumes "scanNumber uni l = Some (b, l')" and "\<not> readErr l'"
  shows "src l' = src l \<and> off l \<le> off l' \<and> off l < length (src l) \<and>
         (numberAhead l \<longrightarrow> off l < off l')"
proof -
  from assms(1) obtain sign l1 zero l2 hex l3 l4 dot l5 l6 e l7 l8 r where
    a1: "lexer_accept ''+-'' l = Some (sign, l1)" and
    a2: "lexer_accept ''0'' l1 = Some (zero, l2)" and
    a3: "(if zero then lexer_accept ''xX'' l2 else Some (False, l2)) = Some (hex, l3)" and
    a4: "acceptRun (if hex then hexDigits else digits) l3 = Some l4" and
    a5: "lexer_accept ''.'' l4 = Some (dot, l5)" and
    a6: "(if dot then acceptRun (if hex then hexDigits else digits) l5 else Some l5) = Some l6" and
    a7: "lexer_accept ''eE'' l6 = Some (e, l7)" and
    a8: "(if e then do { (esign, l') \<leftarrow> lexer_accept ''+-'' l7; acceptRun digits l' }
          else Some l7) = Some l8" and
    a9: "lexer_peek l8 = Some (r, l')"
    unfolding scanNumber_def Let_def
    by (clarsimp simp: bind_eq_Some_conv)
  from peek_noerr[OF a9 assms(2)] have s8: "src l' = src l8" "\<not> readErr l8" "off l' = off l8"
    by simp_all
  have s7: "src l8 = src l7 \<and> \<not> readErr l7 \<and> off l7 \<le> off l8"
  proof (cases e)
    case True
    with a8 obtain es lx where x: "lexer_accept ''+-'' l7 = Some (es, lx)"
      and y: "acceptRun digits lx = Some l8"
      by (auto simp: bind_eq_Some_conv)
    from acceptRun_noerr[OF y s8(2)] have "src l8 = src lx \<and> \<not> readErr lx \<and> off lx \<le> off l8"
      by simp
    with accept_noerr[OF x] show ?thesis by auto
  next
    case False
    with a8 s8 show ?thesis by simp
  qed
  with accept_noerr[OF a7] have s6: "src l7 = src l6 \<and> \<not> readErr l6 \<and> off l6 \<le> off l7"
    by auto
  have s5: "src l6 = src l5 \<and> \<not> readErr l5 \<and> off l5 \<le> off l6"
  proof (cases dot)
    case True
    with a6 have "acceptRun (if hex then hexDigits else digits) l5 = Some l6" by simp
    from acceptRun_noerr[OF this] s6 show ?thesis by simp
  next
    case False
    with a6 s6 show ?thesis by simp
  qed
  with accept_noerr[OF a5] have s4: "src l5 = src l4 \<and> \<not> readErr l4 \<and> off l4 \<le> off l5"
    by auto
  with acceptRun_noerr[OF a4] have s3: "src l4 = src l3 \<and> \<not> readErr l3 \<and> off l3 \<le> off l4 \<and>
      (off l3 < length (src l3) \<and>
       containsRune (if hex then hexDigits else digits) (int (runeOf (src l3 ! off l3))) \<longrightarrow> off l3 < off l4)"
    by simp
  have s2: "src l3 = src l2 \<and> \<not> readErr l2 \<and> off l2 \<le> off l3"
  proof (cases zero)
    case True
    with a3 have "lexer_accept ''xX'' l2 = Some (hex, l3)" by simp
    from accept_noerr[OF this] s3 show ?thesis by auto
  next
    case False
    with a3 s3 show ?thesis by simp
  qed
  with accept_noerr[OF a2] have s1: "src l2 = src l1 \<and> \<not> readErr l1 \<and>
      off l1 < length (src l1) \<and> zero = containsRune ''0'' (int (runeOf (src l1 ! off l1))) \<and>
      off l2 = (if zero then off l1 + 1 else off l1)"
    by simp
  with accept_noerr[OF a1] have s0: "src l1 = src l \<and> \<not> readErr l \<and>
      off l < length (src l) \<and> sign = containsRune ''+-'' (int (runeOf (src l ! off l))) \<and>
      off l1 = (if sign then off l + 1 else off l)"
    by simp
  have mono: "src l' = src l \<and> off l \<le> off l' \<and> off l < length (src l)"
    using s0 s1 s2 s3 s4 s5 s6 s7 s8 by auto
  have strict: "off l < off l'" if na: "numberAhead l"
  proof (cases "sign \<or> zero")
    case True
    then show ?thesis using s0 s1 s2 s3 s4 s5 s6 s7 s8 by auto
  next
    case False
    with s0 s1 have eq: "off l2 = off l" "src l2 = src l" by auto
    from False a3 have l3: "l3 = l2" "\<not> hex" by auto
    from na False s0 s1 have "containsRune digits (int (runeOf (src l ! off l)))"
      by (intro containsRune_digits) (auto simp: numberAhead_def containsRune_def)
    with s3 l3 eq s0 have "off l < off l4" by auto
    then show ?thesis using s4 s5 s6 s7 s8 by auto
  qed
  from mono strict show ?thesis by blast
qed

lemma lexNumber_adv:
  assumes "lexNumber uni l = Some (Some s, l')" and "\<not> readErr l'"
  shows "lexMeasure s l' < lexMeasure LexNumber l"
proof -
  from assms(1) obtain ok l1 where a: "scanNumber uni l = Some (ok, l1)"
    by (auto simp: lexNumber_def bind_eq_Some_conv)
  with assms(1) have s: "s = LexRightDelim" "l' = emit NUMBER l1"
    by (auto simp: lexNumber_def errorf_def bind_eq_Some_conv split: if_splits)
  with assms(2) have "\<not> readErr l1" by simp
  from scanNumber_adv[OF a this] s show ?thesis
    by (auto simp: remaining_def)
qed

lemma step_adv:
  assumes "step uni st (l\<lparr>readErr := False\<rparr>) = Some (Some s, l')" and "\<not> readErr l'"
  shows "lexMeasure s l' < lexMeasure st l"
proof -
  have m: "lexMeasure st (l\<lparr>readErr := False\<rparr>) = lexMeasure st l"
    by (cases st) (simp_all add: remaining_def numberAhead_def)
  let ?l = "l\<lparr>readErr := False\<rparr>"
  from assms lexAny_adv[of uni ?l s l'] lexRightDelim_adv[of uni ?l s l'] lexAtom_adv[of ?l s l']
    lexName_adv[of uni ?l s l'] lexString_adv[of uni ?l s l'] lexNumber_adv[of uni ?l s l']
  have "lexMeasure s l' < lexMeasure st ?l"
    by (cases st) simp_all
  with m show ?thesis by simp
qed

text \<open>
  \<^verbatim>\<open>lex\<close>: from \<^verbatim>\<open>lexAny\<close>, each state is called with \<open>readErr\<close> cleared; the loop ends at the
  nil state or at the end of the input, and returns the tokens. \<open>None\<close> is a panic (the only
  read error of the model being \<^verbatim>\<open>io.EOF\<close>, \<^verbatim>\<open>lex\<close> returns no error).
\<close>

function lexLoop :: "unicode \<Rightarrow> stateFn \<Rightarrow> lexer \<Rightarrow> lexer option" where
  "lexLoop uni st l =
     (case step uni st (l\<lparr>readErr := False\<rparr>) of
        None \<Rightarrow> None
      | Some (st', l') \<Rightarrow>
          if readErr l' then Some l'
          else (case st' of None \<Rightarrow> Some l' | Some s \<Rightarrow> lexLoop uni s l'))"
  by pat_completeness auto
termination
  by (relation "measure (\<lambda>(uni, st, l). lexMeasure st l)") (auto simp: step_adv)

declare lexLoop.simps [simp del]

definition lex :: "unicode \<Rightarrow> readRune list \<Rightarrow> token list option" where
  "lex uni rs = map_option tokens (lexLoop uni LexAny (newLexer rs))"



section \<open>The syntax tree (ast.go)\<close>

text \<open>
  The structs of the tree. A pointer field that the parser may leave nil is an option; a
  slice is a list; a field name used by several structs is qualified by its record where
  needed (\<open>Module.Name\<close>, \<open>Variable.Name\<close>, ...).
\<close>

record Variable =
  Index :: int
  Name :: string

record FuncSigType =
  Var :: Variable

record Param =
  Name :: string
  Types :: "tokenType list"

record FuncSig =
  Type :: "FuncSigType option"
  Params :: "Param list"
  Results :: "tokenType list"

record Local =
  Name :: string
  Type :: tokenType

record EmbeddedExport =
  Name :: string

record EmbeddedImport =
  Module :: string
  Name :: string

record Func =
  Name :: string
  Signature :: FuncSig
  Locals :: "Local list"
  Export :: "EmbeddedExport option"
  Import :: "EmbeddedImport option"

record TypeDef =
  Name :: string
  Func :: FuncSig

record Module =
  Name :: string
  Types :: "TypeDef list"
  Funcs :: "Func list"

text \<open>\<^verbatim>\<open>new(FuncSig)\<close>, the zero value of the struct.\<close>

definition newFuncSig :: FuncSig where
  "newFuncSig = \<lparr>FuncSig.Type = None, Params = [], Results = []\<rparr>"

section \<open>The parser (parse.go)\<close>

subsection \<open>Panics and the cursor\<close>

text \<open>
  The parser reports every failure by a panic. A panic is a value here: the explicit ones
  with their arguments in place of the formatted message, and the run-time panic of an
  index outside the buffer with the index and the length.
\<close>

datatype panic =
    ExpectedOneOf "tokenType list" token
  | MalformedModule token
  | UnreadAtPosition0
  | IndexOutOfRange nat nat
  | PanicToken token
  | AtoiError string

definition bindP :: "panic + 'a \<Rightarrow> ('a \<Rightarrow> panic + 'b) \<Rightarrow> panic + 'b" where
  "bindP m f = (case m of Inl e \<Rightarrow> Inl e | Inr x \<Rightarrow> f x)"

lemma bindP_simps [simp]:
  "bindP (Inl e) f = Inl e"
  "bindP (Inr x) f = f x"
  by (simp_all add: bindP_def)

lemma bindP_cong [fundef_cong]:
  "m = m' \<Longrightarrow> (\<And>x. m' = Inr x \<Longrightarrow> f x = f' x) \<Longrightarrow> bindP m f = bindP m' f'"
  by (cases m') simp_all

lemma bindP_eq_Inr:
  "bindP m f = Inr y \<longleftrightarrow> (\<exists>x. m = Inr x \<and> f x = Inr y)"
  by (cases m) simp_all

record parser =
  buf :: "token list"
  pos :: nat

definition newParser :: "token list \<Rightarrow> parser" where
  "newParser toks = \<lparr>buf = toks, pos = 0\<rparr>"

text \<open>
  \<^verbatim>\<open>read\<close>: at the end of the buffer the zero token, the position still advancing; beyond
  it \<^verbatim>\<open>p.buf[p.pos]\<close> is out of range.
\<close>

definition parser_read :: "parser \<Rightarrow> panic + (token \<times> parser)" where
  "parser_read p =
     (if pos p = length (buf p) then Inr (zeroToken, p\<lparr>pos := pos p + 1\<rparr>)
      else if pos p < length (buf p) then Inr (buf p ! pos p, p\<lparr>pos := pos p + 1\<rparr>)
      else Inl (IndexOutOfRange (pos p) (length (buf p))))"

text \<open>\<^verbatim>\<open>peek\<close>: the zero token at the end of the buffer, else \<^verbatim>\<open>p.buf[p.pos+1]\<close>.\<close>

definition parser_peek :: "parser \<Rightarrow> panic + token" where
  "parser_peek p =
     (if pos p = length (buf p) then Inr zeroToken
      else if pos p + 1 < length (buf p) then Inr (buf p ! (pos p + 1))
      else Inl (IndexOutOfRange (pos p + 1) (length (buf p))))"

definition parser_unread :: "parser \<Rightarrow> panic + parser" where
  "parser_unread p = (if pos p = 0 then Inl UnreadAtPosition0 else Inr (p\<lparr>pos := pos p - 1\<rparr>))"

definition unreadN :: "nat \<Rightarrow> parser \<Rightarrow> panic + parser" where
  "unreadN n p = (if pos p < n then Inl UnreadAtPosition0 else Inr (p\<lparr>pos := pos p - n\<rparr>))"

text \<open>\<^verbatim>\<open>accept\<close> returns the token and whether it was valid; \<^verbatim>\<open>expect\<close> panics instead.\<close>

definition parser_accept :: "tokenType list \<Rightarrow> parser \<Rightarrow> panic + (token \<times> bool \<times> parser)" where
  "parser_accept valid p =
     bindP (parser_read p) (\<lambda>(tok, p1).
       if typ' tok \<in> set valid then Inr (tok, True, p1)
       else bindP (parser_unread p1) (\<lambda>p2. Inr (zeroToken, False, p2)))"

definition acceptIsType :: "parser \<Rightarrow> panic + (token \<times> bool \<times> parser)" where
  "acceptIsType p = parser_accept [F32, F64, I32, I64] p"

definition expect :: "tokenType list \<Rightarrow> parser \<Rightarrow> panic + (token \<times> parser)" where
  "expect valid p =
     bindP (parser_read p) (\<lambda>(tok, p1).
       if typ' tok \<in> set valid then Inr (tok, p1) else Inl (ExpectedOneOf valid tok))"

definition exceptIsType :: "parser \<Rightarrow> panic + (token \<times> parser)" where
  "exceptIsType p = expect [F32, F64, I32, I64] p"

text \<open>
  \<^verbatim>\<open>match\<close>: reads the kinds in order; at the first mismatch, at index \<open>i\<close>, it steps back
  \<open>i + 1\<close> times and reports false.
\<close>

fun unreadTimes :: "nat \<Rightarrow> parser \<Rightarrow> panic + parser" where
  "unreadTimes 0 p = Inr p"
| "unreadTimes (Suc n) p = bindP (parser_unread p) (unreadTimes n)"

fun matchFrom :: "nat \<Rightarrow> tokenType list \<Rightarrow> parser \<Rightarrow> panic + (bool \<times> parser)" where
  "matchFrom i [] p = Inr (True, p)"
| "matchFrom i (t # ts) p =
     bindP (parser_read p) (\<lambda>(tok, p1).
       if typ' tok \<noteq> t then bindP (unreadTimes (i + 1) p1) (\<lambda>p2. Inr (False, p2))
       else matchFrom (i + 1) ts p1)"

definition match :: "tokenType list \<Rightarrow> parser \<Rightarrow> panic + (bool \<times> parser)" where
  "match ts p = matchFrom 0 ts p"

subsection \<open>Names, integers and strings\<close>

text \<open>\<^verbatim>\<open>bytes.TrimPrefix\<close>.\<close>

definition TrimPrefix :: "string \<Rightarrow> string \<Rightarrow> string" where
  "TrimPrefix s prefix =
     (if length prefix \<le> length s \<and> take (length prefix) s = prefix
      then drop (length prefix) s else s)"

definition extractName :: "token \<Rightarrow> panic + string" where
  "extractName tok =
     (if typ' tok \<noteq> NAME then Inl (PanicToken tok) else Inr (TrimPrefix (text' tok) ''$''))"

text \<open>
  \<^verbatim>\<open>strconv.Atoi\<close>, of Go's library, as documented: an optional sign and one or more decimal
  digits, in the range of a 64-bit \<^verbatim>\<open>int\<close>; an error otherwise.
\<close>

definition decimal :: "string \<Rightarrow> int" where
  "decimal ds = foldl (\<lambda>n c. n * 10 + (of_char c - 48)) 0 ds"

definition Atoi :: "string \<Rightarrow> int option" where
  "Atoi s =
     (let neg = (s \<noteq> [] \<and> hd s = CHR ''-'');
          ds = (if s \<noteq> [] \<and> (hd s = CHR ''-'' \<or> hd s = CHR ''+'') then tl s else s);
          v = (if neg then - decimal ds else decimal ds)
      in if ds = [] \<or> \<not> list_all (\<lambda>c. c \<in> set digits) ds then None
         else if - (2 ^ 63) \<le> v \<and> v < 2 ^ 63 then Some v
         else None)"

definition extractInteger :: "token \<Rightarrow> panic + int" where
  "extractInteger tok =
     (if typ' tok \<noteq> NUMBER then Inl (PanicToken tok)
      else case Atoi (text' tok) of
             None \<Rightarrow> Inl (AtoiError (text' tok))
           | Some n \<Rightarrow> Inr n)"

text \<open>
  \<^verbatim>\<open>strconv.Unquote\<close> is not part of the repository: the decoder is a parameter \<open>unq\<close> of the
  parser, \<open>None\<close> standing for its error. \<^verbatim>\<open>parseFunc\<close> drops the error and keeps the string
  returned with it, which is empty.
\<close>

definition unquoted :: "(string \<Rightarrow> string option) \<Rightarrow> string \<Rightarrow> string" where
  "unquoted unq s = (case unq s of None \<Rightarrow> [] | Some v \<Rightarrow> v)"

text \<open>\<^verbatim>\<open>maybeName(&field)\<close>: the field keeps its value \<open>cur\<close> unless a name follows.\<close>

definition maybeName :: "string \<Rightarrow> parser \<Rightarrow> panic + (string \<times> parser)" where
  "maybeName cur p =
     bindP (parser_accept [NAME] p) (\<lambda>(tok, isName, p1).
       if isName then bindP (extractName tok) (\<lambda>n. Inr (n, p1)) else Inr (cur, p1))"

definition parseVariable :: "parser \<Rightarrow> panic + (Variable \<times> parser)" where
  "parseVariable p =
     bindP (expect [NAME, NUMBER] p) (\<lambda>(v, p1).
       if typ' v = NAME then
         bindP (extractName v) (\<lambda>n. Inr (\<lparr>Index = 0, Variable.Name = n\<rparr>, p1))
       else bindP (extractInteger v) (\<lambda>i. Inr (\<lparr>Index = i, Variable.Name = []\<rparr>, p1)))"


subsection \<open>The productions\<close>

text \<open>
  The cursor never moves backwards over a call that returns, and the buffer is never
  changed; a successful \<open>match\<close> or \<open>accept\<close> of real kinds consumes tokens of the buffer.
  The loops of the parser end for that reason.
\<close>

lemma parser_accept_adv:
  assumes "parser_accept valid p = Inr (tok, b, p')"
  shows "buf p' = buf p \<and> pos p \<le> pos p' \<and>
         (b \<and> ERROR \<notin> set valid \<longrightarrow> pos p < length (buf p) \<and> pos p < pos p')"
  using assms
  by (auto simp: parser_accept_def parser_read_def parser_unread_def zeroToken_def bindP_eq_Inr
           split: if_splits)

lemma expect_adv:
  assumes "expect valid p = Inr (tok, p')"
  shows "buf p' = buf p \<and> pos p \<le> pos p'"
  using assms
  by (auto simp: expect_def parser_read_def bindP_eq_Inr split: if_splits)

lemma unreadTimes_pos:
  "unreadTimes n p = Inr p' \<Longrightarrow> buf p' = buf p \<and> pos p' = pos p - n \<and> n \<le> pos p"
proof (induction n arbitrary: p)
  case 0
  then show ?case by simp
next
  case (Suc n)
  then obtain p1 where u: "parser_unread p = Inr p1" and r: "unreadTimes n p1 = Inr p'"
    by (auto simp: bindP_eq_Inr)
  from u have "buf p1 = buf p \<and> pos p1 = pos p - 1 \<and> 0 < pos p"
    by (auto simp: parser_unread_def split: if_splits)
  with Suc.IH[OF r] show ?case by auto
qed

lemma matchFrom_pos:
  "matchFrom i ts p = Inr (b, p') \<Longrightarrow>
     buf p' = buf p \<and>
     (if b then pos p' = pos p + length ts else pos p' + i = pos p) \<and>
     (b \<and> ts \<noteq> [] \<and> ERROR \<notin> set ts \<longrightarrow> pos p < length (buf p))"
proof (induction ts arbitrary: i p)
  case Nil
  then show ?case by simp
next
  case (Cons t ts)
  from Cons.prems obtain tok p1 where rd: "parser_read p = Inr (tok, p1)"
    by (auto simp: bindP_eq_Inr)
  then have p1: "buf p1 = buf p \<and> pos p1 = pos p + 1"
    by (auto simp: parser_read_def split: if_splits)
  show ?case
  proof (cases "typ' tok \<noteq> t")
    case True
    with Cons.prems rd obtain p2 where u: "unreadTimes (i + 1) p1 = Inr p2" and e: "b = False" "p' = p2"
      by (auto simp: bindP_eq_Inr)
    from unreadTimes_pos[OF u] p1 e show ?thesis by auto
  next
    case False
    with Cons.prems rd have m: "matchFrom (i + 1) ts p1 = Inr (b, p')" by simp
    from rd False have "t \<noteq> ERROR \<longrightarrow> pos p < length (buf p)"
      by (auto simp: parser_read_def zeroToken_def split: if_splits)
    with Cons.IH[OF m] p1 show ?thesis by auto
  qed
qed

lemma match_adv:
  assumes "match ts p = Inr (b, p')"
  shows "buf p' = buf p \<and> pos p \<le> pos p' \<and>
     (b \<and> ts \<noteq> [] \<and> ERROR \<notin> set ts \<longrightarrow> pos p < length (buf p) \<and> pos p < pos p')"
  using matchFrom_pos[of 0 ts p b p'] assms
  by (auto simp: match_def split: if_splits)

text \<open>
  The loop of \<^verbatim>\<open>parseParam\<close>: \<^verbatim>\<open>for { t, isTyp := p.acceptIsType(); if !isTyp { break };
  param.Types = append(param.Types, t.typ) }\<close>.
\<close>

function paramTypes :: "tokenType list \<Rightarrow> parser \<Rightarrow> panic + (tokenType list \<times> parser)" where
  "paramTypes types p =
     bindP (acceptIsType p) (\<lambda>(t, isTyp, p1).
       if \<not> isTyp then Inr (types, p1) else paramTypes (types @ [typ' t]) p1)"
  by pat_completeness auto
termination
  by (relation "measure (\<lambda>(types, p). length (buf p) - pos p)")
     (auto simp: acceptIsType_def dest!: parser_accept_adv)

declare paramTypes.simps [simp del]


lemma paramTypes_adv:
  "paramTypes types p = Inr (ts, p') \<Longrightarrow> buf p' = buf p \<and> pos p \<le> pos p'"
proof (induction types p rule: paramTypes.induct)
  case (1 types p)
  from "1.prems" obtain t isTyp p1 where a: "acceptIsType p = Inr (t, isTyp, p1)"
    by (subst (asm) paramTypes.simps) (auto simp: bindP_eq_Inr)
  then have p1: "buf p1 = buf p \<and> pos p \<le> pos p1"
    by (auto simp: acceptIsType_def dest: parser_accept_adv)
  show ?case
  proof (cases isTyp)
    case True
    with "1.prems" a have "paramTypes (types @ [typ' t]) p1 = Inr (ts, p')"
      by (subst (asm) paramTypes.simps) simp
    from "1.IH"[OF a refl refl _ this] True p1 show ?thesis by auto
  next
    case False
    with "1.prems" a p1 show ?thesis
      by (subst (asm) paramTypes.simps) auto
  qed
qed

text \<open>
  \<^verbatim>\<open>parseParam\<close>. The named form returns after its type; the unnamed form reads its types
  and the closing parenthesis.
\<close>

definition parseParam :: "parser \<Rightarrow> panic + (Param \<times> parser)" where
  "parseParam p =
     bindP (expect [LPAREN] p) (\<lambda>(t1, p1).
     bindP (expect [PARAM] p1) (\<lambda>(t2, p2).
     bindP (parser_accept [NAME] p2) (\<lambda>(name, hasName, p3).
       if hasName then
         bindP (extractName name) (\<lambda>n.
         bindP (exceptIsType p3) (\<lambda>(t, p4).
           Inr (\<lparr>Param.Name = n, Types = [typ' t]\<rparr>, p4)))
       else
         bindP (paramTypes [] p3) (\<lambda>(types, p4).
         bindP (expect [RPAREN] p4) (\<lambda>(t3, p5).
           Inr (\<lparr>Param.Name = [], Types = types\<rparr>, p5))))))"

lemma parseParam_adv:
  assumes "parseParam p = Inr (x, p')"
  shows "buf p' = buf p \<and> pos p \<le> pos p'"
  using assms unfolding parseParam_def exceptIsType_def
  by (auto simp: bindP_eq_Inr split: if_splits
           dest!: expect_adv parser_accept_adv paramTypes_adv)

text \<open>
  \<^verbatim>\<open>parseParamList\<close>: \<^verbatim>\<open>for p.match(LPAREN, PARAM) { params = append(params, p.parseParam()) }\<close>.
\<close>

function parseParamListFrom :: "Param list \<Rightarrow> parser \<Rightarrow> panic + (Param list \<times> parser)" where
  "parseParamListFrom params p =
     bindP (match [LPAREN, PARAM] p) (\<lambda>(m, p1).
       if \<not> m then Inr (params, p1)
       else bindP (parseParam p1) (\<lambda>(param, p2). parseParamListFrom (params @ [param]) p2))"
  by pat_completeness auto
termination
  by (relation "measure (\<lambda>(params, p). length (buf p) - pos p)")
     (auto dest!: match_adv parseParam_adv)

declare parseParamListFrom.simps [simp del]

definition parseParamList :: "parser \<Rightarrow> panic + (Param list \<times> parser)" where
  "parseParamList p = parseParamListFrom [] p"

lemma parseParamListFrom_adv:
  "parseParamListFrom params p = Inr (ps, p') \<Longrightarrow> buf p' = buf p \<and> pos p \<le> pos p'"
proof (induction params p rule: parseParamListFrom.induct)
  case (1 params p)
  from "1.prems" obtain m p1 where a: "match [LPAREN, PARAM] p = Inr (m, p1)"
    by (subst (asm) parseParamListFrom.simps) (auto simp: bindP_eq_Inr)
  from match_adv[OF a] have p1: "buf p1 = buf p \<and> pos p \<le> pos p1" by simp
  show ?case
  proof (cases m)
    case True
    with "1.prems" a obtain param p2 where b: "parseParam p1 = Inr (param, p2)"
      and c: "parseParamListFrom (params @ [param]) p2 = Inr (ps, p')"
      by (subst (asm) parseParamListFrom.simps) (auto simp: bindP_eq_Inr)
    from "1.IH"[OF a refl _ b refl c] True parseParam_adv[OF b] p1 show ?thesis by auto
  next
    case False
    with "1.prems" a p1 show ?thesis
      by (subst (asm) parseParamListFrom.simps) auto
  qed
qed

text \<open>
  \<^verbatim>\<open>parseResultList\<close>: \<^verbatim>\<open>for p.match(LPAREN, RESULT) { res = append(res, p.exceptIsType().typ) }\<close>.
\<close>

function parseResultListFrom :: "tokenType list \<Rightarrow> parser \<Rightarrow> panic + (tokenType list \<times> parser)" where
  "parseResultListFrom res p =
     bindP (match [LPAREN, RESULT] p) (\<lambda>(m, p1).
       if \<not> m then Inr (res, p1)
       else bindP (exceptIsType p1) (\<lambda>(t, p2). parseResultListFrom (res @ [typ' t]) p2))"
  by pat_completeness auto
termination
  by (relation "measure (\<lambda>(res, p). length (buf p) - pos p)")
     (auto simp: exceptIsType_def dest!: match_adv expect_adv)

declare parseResultListFrom.simps [simp del]

definition parseResultList :: "parser \<Rightarrow> panic + (tokenType list \<times> parser)" where
  "parseResultList p = parseResultListFrom [] p"

lemma parseResultListFrom_adv:
  "parseResultListFrom res p = Inr (rs, p') \<Longrightarrow> buf p' = buf p \<and> pos p \<le> pos p'"
proof (induction res p rule: parseResultListFrom.induct)
  case (1 res p)
  from "1.prems" obtain m p1 where a: "match [LPAREN, RESULT] p = Inr (m, p1)"
    by (subst (asm) parseResultListFrom.simps) (auto simp: bindP_eq_Inr)
  from match_adv[OF a] have p1: "buf p1 = buf p \<and> pos p \<le> pos p1" by simp
  show ?case
  proof (cases m)
    case True
    with "1.prems" a obtain t p2 where b: "exceptIsType p1 = Inr (t, p2)"
      and c: "parseResultListFrom (res @ [typ' t]) p2 = Inr (rs, p')"
      by (subst (asm) parseResultListFrom.simps) (auto simp: bindP_eq_Inr)
    from b have "buf p2 = buf p1 \<and> pos p1 \<le> pos p2"
      by (auto simp: exceptIsType_def dest: expect_adv)
    with "1.IH"[OF a refl _ b refl c] True p1 show ?thesis by auto
  next
    case False
    with "1.prems" a p1 show ?thesis
      by (subst (asm) parseResultListFrom.simps) auto
  qed
qed

text \<open>
  \<^verbatim>\<open>parseFuncSig\<close>: a type reference after \<^verbatim>\<open>( type\<close>; after \<^verbatim>\<open>( param\<close> or \<^verbatim>\<open>( result\<close>, which
  are put back with \<^verbatim>\<open>unreadN(2)\<close>, the parameters and the results; else the empty
  signature.
\<close>

definition parseFuncSig :: "parser \<Rightarrow> panic + (FuncSig \<times> parser)" where
  "parseFuncSig p =
     bindP (match [LPAREN, TYPE'] p) (\<lambda>(isType, p1).
       if isType then
         bindP (parseVariable p1) (\<lambda>(v, p2).
           Inr (\<lparr>FuncSig.Type = Some \<lparr>Var = v\<rparr>, Params = [], Results = []\<rparr>, p2))
       else
         bindP (match [LPAREN, PARAM] p1) (\<lambda>(isParam, p2).
         bindP (if isParam then Inr (True, p2) else match [LPAREN, RESULT] p2) (\<lambda>(explicit, p3).
           if explicit then
             bindP (unreadN 2 p3) (\<lambda>p4.
             bindP (parseParamList p4) (\<lambda>(params, p5).
             bindP (parseResultList p5) (\<lambda>(results, p6).
               Inr (\<lparr>FuncSig.Type = None, Params = params, Results = results\<rparr>, p6))))
           else Inr (newFuncSig, p3))))"


lemma parseVariable_adv:
  assumes "parseVariable p = Inr (v, p')"
  shows "buf p' = buf p \<and> pos p \<le> pos p'"
  using assms unfolding parseVariable_def
  by (auto simp: bindP_eq_Inr split: if_splits dest!: expect_adv)

lemma parseFuncSig_adv:
  assumes "parseFuncSig p = Inr (sig, p')"
  shows "buf p' = buf p \<and> pos p \<le> pos p'"
proof -
  from assms obtain isType p1 where a: "match [LPAREN, TYPE'] p = Inr (isType, p1)"
    by (auto simp: parseFuncSig_def bindP_eq_Inr)
  from matchFrom_pos[of 0 "[LPAREN, TYPE']" p isType p1] a
  have p1: "buf p1 = buf p \<and> pos p \<le> pos p1" by (auto simp: match_def split: if_splits)
  show ?thesis
  proof (cases isType)
    case True
    with assms a obtain v where "parseVariable p1 = Inr (v, p')"
      by (auto simp: parseFuncSig_def bindP_eq_Inr)
    from parseVariable_adv[OF this] p1 show ?thesis by auto
  next
    case False
    with assms a obtain isParam p2 explicit p3 where
      b: "match [LPAREN, PARAM] p1 = Inr (isParam, p2)" and
      c: "(if isParam then Inr (True, p2) else match [LPAREN, RESULT] p2) = Inr (explicit, p3)" and
      d: "(if explicit then
             bindP (unreadN 2 p3) (\<lambda>p4.
             bindP (parseParamList p4) (\<lambda>(params, p5).
             bindP (parseResultList p5) (\<lambda>(results, p6).
               Inr (\<lparr>FuncSig.Type = None, Params = params, Results = results\<rparr>, p6))))
           else Inr (newFuncSig, p3)) = Inr (sig, p')"
      by (auto simp: parseFuncSig_def bindP_eq_Inr)
    from matchFrom_pos[of 0 "[LPAREN, PARAM]" p1 isParam p2] b
    have p2: "buf p2 = buf p1 \<and> pos p2 = (if isParam then pos p1 + 2 else pos p1)"
      by (auto simp: match_def split: if_splits)
    have p3: "buf p3 = buf p1 \<and> pos p3 = (if explicit then pos p1 + 2 else pos p1)"
    proof (cases isParam)
      case True
      with c p2 show ?thesis by auto
    next
      case False
      with c have "match [LPAREN, RESULT] p2 = Inr (explicit, p3)" by simp
      from matchFrom_pos[of 0 "[LPAREN, RESULT]" p2 explicit p3] this p2 False
      show ?thesis by (auto simp: match_def split: if_splits)
    qed
    show ?thesis
    proof (cases explicit)
      case True
      with d obtain p4 params p5 results where
        u: "unreadN 2 p3 = Inr p4" and
        pl: "parseParamList p4 = Inr (params, p5)" and
        rl: "parseResultList p5 = Inr (results, p')"
        by (auto simp: bindP_eq_Inr)
      from u p3 True have "buf p4 = buf p1 \<and> pos p4 = pos p1"
        by (auto simp: unreadN_def split: if_splits)
      with pl rl p1 show ?thesis
        by (auto simp: parseParamList_def parseResultList_def
                 dest!: parseParamListFrom_adv parseResultListFrom_adv)
    next
      case False
      with d p3 p1 show ?thesis by auto
    qed
  qed
qed

text \<open>
  \<^verbatim>\<open>parseLocalList\<close>. The named form returns a single local at once. The unnamed form reads
  its types into a slice declared inside the loop body, which the next iteration and the
  final \<^verbatim>\<open>return locals\<close> do not see: the outer \<^verbatim>\<open>locals\<close> is never assigned.
\<close>

function localTypes :: "Local list \<Rightarrow> parser \<Rightarrow> panic + (Local list \<times> parser)" where
  "localTypes locals p =
     bindP (acceptIsType p) (\<lambda>(t, isTyp, p1).
       if \<not> isTyp then Inr (locals, p1)
       else localTypes (locals @ [\<lparr>Local.Name = [], Type = typ' t\<rparr>]) p1)"
  by pat_completeness auto
termination
  by (relation "measure (\<lambda>(locals, p). length (buf p) - pos p)")
     (auto simp: acceptIsType_def dest!: parser_accept_adv)

declare localTypes.simps [simp del]

lemma localTypes_adv:
  "localTypes locals p = Inr (ls, p') \<Longrightarrow> buf p' = buf p \<and> pos p \<le> pos p'"
proof (induction locals p rule: localTypes.induct)
  case (1 locals p)
  from "1.prems" obtain t isTyp p1 where a: "acceptIsType p = Inr (t, isTyp, p1)"
    by (subst (asm) localTypes.simps) (auto simp: bindP_eq_Inr)
  then have p1: "buf p1 = buf p \<and> pos p \<le> pos p1"
    by (auto simp: acceptIsType_def dest: parser_accept_adv)
  show ?case
  proof (cases isTyp)
    case True
    with "1.prems" a have "localTypes (locals @ [\<lparr>Local.Name = [], Type = typ' t\<rparr>]) p1 = Inr (ls, p')"
      by (subst (asm) localTypes.simps) simp
    from "1.IH"[OF a refl refl _ this] True p1 show ?thesis by auto
  next
    case False
    with "1.prems" a p1 show ?thesis
      by (subst (asm) localTypes.simps) auto
  qed
qed

function parseLocalListFrom :: "Local list \<Rightarrow> parser \<Rightarrow> panic + (Local list \<times> parser)" where
  "parseLocalListFrom locals p =
     bindP (match [LPAREN, LOCAL] p) (\<lambda>(m, p1).
       if \<not> m then Inr (locals, p1)
       else
         bindP (parser_accept [NAME] p1) (\<lambda>(name, hasName, p2).
           if hasName then
             bindP (extractName name) (\<lambda>n.
             bindP (exceptIsType p2) (\<lambda>(t, p3).
               Inr ([\<lparr>Local.Name = n, Type = typ' t\<rparr>], p3)))
           else
             bindP (localTypes [] p2) (\<lambda>(inner, p3). parseLocalListFrom locals p3)))"
  by pat_completeness auto
termination
  by (relation "measure (\<lambda>(locals, p). length (buf p) - pos p)")
     (auto dest!: match_adv parser_accept_adv localTypes_adv)

declare parseLocalListFrom.simps [simp del]

definition parseLocalList :: "parser \<Rightarrow> panic + (Local list \<times> parser)" where
  "parseLocalList p = parseLocalListFrom [] p"

lemma parseLocalListFrom_adv:
  "parseLocalListFrom locals p = Inr (ls, p') \<Longrightarrow> buf p' = buf p \<and> pos p \<le> pos p'"
proof (induction locals p rule: parseLocalListFrom.induct)
  case (1 locals p)
  from "1.prems" obtain m p1 where a: "match [LPAREN, LOCAL] p = Inr (m, p1)"
    by (subst (asm) parseLocalListFrom.simps) (auto simp: bindP_eq_Inr)
  from match_adv[OF a] have p1: "buf p1 = buf p \<and> pos p \<le> pos p1" by simp
  show ?case
  proof (cases m)
    case False
    with "1.prems" a p1 show ?thesis
      by (subst (asm) parseLocalListFrom.simps) auto
  next
    case True
    with "1.prems" a obtain name hasName p2 where b: "parser_accept [NAME] p1 = Inr (name, hasName, p2)"
      by (subst (asm) parseLocalListFrom.simps) (auto simp: bindP_eq_Inr)
    from parser_accept_adv[OF b] have p2: "buf p2 = buf p1 \<and> pos p1 \<le> pos p2" by simp
    show ?thesis
    proof (cases hasName)
      case True
      with "1.prems" a b \<open>m\<close> obtain t where "exceptIsType p2 = Inr (t, p')"
        by (subst (asm) parseLocalListFrom.simps) (auto simp: bindP_eq_Inr)
      then have "buf p' = buf p2 \<and> pos p2 \<le> pos p'"
        by (auto simp: exceptIsType_def dest: expect_adv)
      with p1 p2 show ?thesis by auto
    next
      case False
      with "1.prems" a b \<open>m\<close> obtain inner p3 where c: "localTypes [] p2 = Inr (inner, p3)"
        and d: "parseLocalListFrom locals p3 = Inr (ls, p')"
        by (subst (asm) parseLocalListFrom.simps) (auto simp: bindP_eq_Inr)
      from "1.IH"[OF a refl _ b refl refl _ c refl d] \<open>m\<close> False localTypes_adv[OF c] p1 p2
      show ?thesis by auto
    qed
  qed
qed


text \<open>\<^verbatim>\<open>parseTypeDef\<close>, called after \<^verbatim>\<open>( type\<close>.\<close>

definition parseTypeDef :: "parser \<Rightarrow> panic + (TypeDef \<times> parser)" where
  "parseTypeDef p =
     bindP (maybeName [] p) (\<lambda>(n, p1).
     bindP (expect [LPAREN] p1) (\<lambda>(t1, p2).
     bindP (expect [FUNC] p2) (\<lambda>(t2, p3).
     bindP (parseFuncSig p3) (\<lambda>(sig, p4).
       Inr (\<lparr>TypeDef.Name = n, Func = sig\<rparr>, p4)))))"

text \<open>
  \<^verbatim>\<open>parseFunc\<close>, called after \<^verbatim>\<open>( func\<close>: the name, an export or an import clause, the
  signature, and for a function that is not imported its locals and the closing
  parenthesis.
\<close>

definition parseFunc :: "(string \<Rightarrow> string option) \<Rightarrow> parser \<Rightarrow> panic + (Func \<times> parser)" where
  "parseFunc unq p =
     bindP (maybeName [] p) (\<lambda>(n, p1).
     bindP (match [LPAREN, EXPORT] p1) (\<lambda>(isExport, p2).
     bindP
       (if isExport then
          bindP (expect [STRING] p2) (\<lambda>(s, p3).
          bindP (expect [RPAREN] p3) (\<lambda>(t, p4).
            Inr (Some \<lparr>EmbeddedExport.Name = unquoted unq (text' s)\<rparr>, None, p4)))
        else
          bindP (match [LPAREN, IMPORT] p2) (\<lambda>(isImport, p3).
            if isImport then
              bindP (expect [STRING] p3) (\<lambda>(s1, p4).
              bindP (expect [STRING] p4) (\<lambda>(s2, p5).
              bindP (expect [RPAREN] p5) (\<lambda>(t, p6).
                Inr (None,
                     Some \<lparr>Module = unquoted unq (text' s1),
                           EmbeddedImport.Name = unquoted unq (text' s2)\<rparr>, p6))))
            else Inr (None, None, p3)))
       (\<lambda>(export, import, p7).
     bindP (parseFuncSig p7) (\<lambda>(sig, p8).
       if import \<noteq> None then
         Inr (\<lparr>Func.Name = n, Signature = sig, Locals = [], Export = export, Import = import\<rparr>, p8)
       else
         bindP (parseLocalList p8) (\<lambda>(locals, p9).
         bindP (expect [RPAREN] p9) (\<lambda>(t, p10).
           Inr (\<lparr>Func.Name = n, Signature = sig, Locals = locals, Export = export,
                  Import = import\<rparr>, p10)))))))"

lemma maybeName_adv:
  assumes "maybeName cur p = Inr (n, p')"
  shows "buf p' = buf p \<and> pos p \<le> pos p'"
  using assms unfolding maybeName_def
  by (auto simp: bindP_eq_Inr split: if_splits dest!: parser_accept_adv)

lemma parseTypeDef_adv:
  assumes "parseTypeDef p = Inr (d, p')"
  shows "buf p' = buf p \<and> pos p \<le> pos p'"
  using assms unfolding parseTypeDef_def
  by (auto simp: bindP_eq_Inr dest!: maybeName_adv expect_adv parseFuncSig_adv)

lemma parseFunc_adv:
  assumes "parseFunc unq p = Inr (f, p')"
  shows "buf p' = buf p \<and> pos p \<le> pos p'"
proof -
  from assms obtain n p1 isExport p2 export import p7 sig p8 where
    a: "maybeName [] p = Inr (n, p1)" and
    b: "match [LPAREN, EXPORT] p1 = Inr (isExport, p2)" and
    c: "(if isExport then
          bindP (expect [STRING] p2) (\<lambda>(s, p3).
          bindP (expect [RPAREN] p3) (\<lambda>(t, p4).
            Inr (Some \<lparr>EmbeddedExport.Name = unquoted unq (text' s)\<rparr>, None, p4)))
        else
          bindP (match [LPAREN, IMPORT] p2) (\<lambda>(isImport, p3).
            if isImport then
              bindP (expect [STRING] p3) (\<lambda>(s1, p4).
              bindP (expect [STRING] p4) (\<lambda>(s2, p5).
              bindP (expect [RPAREN] p5) (\<lambda>(t, p6).
                Inr (None,
                     Some \<lparr>Module = unquoted unq (text' s1),
                           EmbeddedImport.Name = unquoted unq (text' s2)\<rparr>, p6))))
            else Inr (None, None, p3))) = Inr (export, import, p7)" and
    d: "parseFuncSig p7 = Inr (sig, p8)" and
    e: "(if import \<noteq> None then
         Inr (\<lparr>Func.Name = n, Signature = sig, Locals = [], Export = export, Import = import\<rparr>, p8)
       else
         bindP (parseLocalList p8) (\<lambda>(locals, p9).
         bindP (expect [RPAREN] p9) (\<lambda>(t, p10).
           Inr (\<lparr>Func.Name = n, Signature = sig, Locals = locals, Export = export,
                  Import = import\<rparr>, p10)))) = Inr (f, p')"
    unfolding parseFunc_def by (clarsimp simp: bindP_eq_Inr)
  from c have p7: "buf p7 = buf p2 \<and> pos p2 \<le> pos p7"
    by (auto simp: bindP_eq_Inr split: if_splits dest!: expect_adv match_adv)
  from e have p': "buf p' = buf p8 \<and> pos p8 \<le> pos p'"
    by (auto simp: bindP_eq_Inr parseLocalList_def split: if_splits
             dest!: expect_adv parseLocalListFrom_adv)
  from maybeName_adv[OF a] match_adv[OF b] p7 parseFuncSig_adv[OF d] p'
  show ?thesis by auto
qed

text \<open>
  \<^verbatim>\<open>parseModule\<close>: after \<^verbatim>\<open>( module\<close> and the name, the loop appends type definitions and
  functions; it returns when \<^verbatim>\<open>p.peek()\<close> is a right parenthesis and panics on anything
  else.
\<close>

function parseModuleFrom ::
  "(string \<Rightarrow> string option) \<Rightarrow> Module \<Rightarrow> parser \<Rightarrow> panic + (Module \<times> parser)" where
  "parseModuleFrom unq m p =
     bindP (match [LPAREN, TYPE'] p) (\<lambda>(isType, p1).
       if isType then
         bindP (parseTypeDef p1) (\<lambda>(d, p2).
           parseModuleFrom unq (m\<lparr>Types := Types m @ [d]\<rparr>) p2)
       else
         bindP (match [LPAREN, FUNC] p1) (\<lambda>(isFunc, p2).
           if isFunc then
             bindP (parseFunc unq p2) (\<lambda>(f, p3).
               parseModuleFrom unq (m\<lparr>Funcs := Funcs m @ [f]\<rparr>) p3)
           else
             bindP (parser_peek p2) (\<lambda>t.
               if typ' t = RPAREN then Inr (m, p2)
               else bindP (parser_peek p2) (\<lambda>t'. Inl (MalformedModule t')))))"
  by pat_completeness auto
termination
  by (relation "measure (\<lambda>(unq, m, p). length (buf p) - pos p)")
     (auto dest!: match_adv parseTypeDef_adv parseFunc_adv)

declare parseModuleFrom.simps [simp del]

definition parseModule :: "(string \<Rightarrow> string option) \<Rightarrow> parser \<Rightarrow> panic + (Module \<times> parser)" where
  "parseModule unq p =
     bindP (expect [LPAREN] p) (\<lambda>(t1, p1).
     bindP (expect [MODULE] p1) (\<lambda>(t2, p2).
     bindP (maybeName [] p2) (\<lambda>(n, p3).
       parseModuleFrom unq \<lparr>Module.Name = n, Types = [], Funcs = []\<rparr> p3)))"

text \<open>
  \<^verbatim>\<open>newParser(tokens).parse()\<close>: the module and the parser as the call leaves it, or the
  panic.
\<close>

definition parse :: "(string \<Rightarrow> string option) \<Rightarrow> token list \<Rightarrow> panic + (Module \<times> parser)" where
  "parse unq toks = parseModule unq (newParser toks)"



section \<open>Evaluating the scanner and the parser\<close>

text \<open>
  \<open>runesOf s\<close>: the runes that \<^verbatim>\<open>ReadRune\<close> delivers for a text of ASCII bytes. \<open>tok\<close> is the
  helper of the test file, \<^verbatim>\<open>func tok(typ tokenType, text string) token\<close>.
\<close>

definition runesOf :: "string \<Rightarrow> readRune list" where
  "runesOf s = map (\<lambda>c. Decoded (of_char c)) s"

definition tok :: "tokenType \<Rightarrow> string \<Rightarrow> token" where
  "tok t s = \<lparr>typ' = t, text' = s\<rparr>"

text \<open>
  The body of a string literal, as the switch of \<^verbatim>\<open>lexString\<close> reads it without an error: a
  plain rune is any delivery but the quote, the backslash, a control character (U+0000 to
  U+001F, the newline among them) and U+007F; \<open>stringBody\<close> holds of a sequence of plain
  runes and complete escapes, a backslash followed by one of \<^verbatim>\<open>nt\'"\<close> or by two
  hexadecimal digits.
\<close>

definition plainRune :: "readRune \<Rightarrow> bool" where
  "plainRune x =
     (0x1F < runeOf x \<and> runeOf x \<noteq> 0x22 \<and> runeOf x \<noteq> 0x5C \<and> runeOf x \<noteq> 0x7F)"

fun stringBody :: "readRune list \<Rightarrow> bool" where
  "stringBody [] = True"
| "stringBody (x # xs) =
     (if x = Decoded 0x5C then
        (case xs of
           [] \<Rightarrow> False
         | y # ys \<Rightarrow>
             if y \<in> set (runesOf (''nt'' @ [backslash, squote, dquote])) then stringBody ys
             else (case ys of
                     [] \<Rightarrow> False
                   | z # zs \<Rightarrow>
                       y \<in> set (runesOf hexDigits) \<and> z \<in> set (runesOf hexDigits) \<and>
                       stringBody zs))
      else plainRune x \<and> stringBody xs)"

text \<open>
  Evaluation by the simplifier: the first argument of a bind, a case or a let is evaluated
  before its continuation is looked at.
\<close>

lemma replicate_numeral: "replicate (numeral k) x = x # replicate (pred_numeral k) x"
  by (simp add: numeral_eq_Suc)

lemma bind_weak_cong: "m = m' \<Longrightarrow> Option.bind m f = Option.bind m' f"
  by simp

lemma bindP_weak_cong: "m = m' \<Longrightarrow> bindP m f = bindP m' f"
  by simp

lemmas eval_cong =
  bind_weak_cong bindP_weak_cong prod.case_cong_weak option.case_cong_weak
  sum.case_cong_weak let_weak_cong

lemmas lex_eval =
  lex_def newLexer_def lexLoop.simps lexAny_def lexRightDelim_def lexAtom_def
  lexName_def lexString.simps lexNumber_def scanNumber_def illegalEscape_def
  lexer_read_def lexer_unread_def lexer_peek_def lexer_accept_def readRun.simps acceptRun_def
  discardRun_def emit_def errorf_def containsRune_def encodeRune_def
  letters_def digits_def hexDigits_def name_def symbols_def
  HasSuffix_def TrimSuffix_def atom_def atom_table_def
  isAlphaNumeric_def IsLetter_def IsDigit_def IsPrint_def fmtU_def hexU.simps hexDigitU_def
  runesOf_def tok_def char_of_def bit_Suc_0_iff replicate_numeral

lemmas parse_eval =
  parse_def newParser_def parseModule_def parseModuleFrom.simps parseFunc_def
  parseTypeDef_def parseFuncSig_def parseParamList_def parseParamListFrom.simps parseParam_def
  paramTypes.simps parseResultList_def parseResultListFrom.simps parseLocalList_def
  parseLocalListFrom.simps localTypes.simps parseVariable_def maybeName_def extractName_def
  extractInteger_def Atoi_def decimal_def digits_def TrimPrefix_def unquoted_def
  match_def expect_def exceptIsType_def acceptIsType_def parser_accept_def parser_read_def
  parser_peek_def parser_unread_def unreadN_def zeroToken_def newFuncSig_def tok_def

text \<open>
  A byte that is not valid UTF-8 is delivered as U+FFFD with size 1, while \<^verbatim>\<open>read\<close> appends
  the three bytes of \<^verbatim>\<open>string(r)\<close> to the pending text: \<^verbatim>\<open>unread\<close> then drops one byte only. For
  the bytes \<^verbatim>\<open>24 61 FF\<close> the name token is \<^verbatim>\<open>$a\<close> followed by the bytes \<^verbatim>\<open>EF BF\<close>.
\<close>

lemma lexName_invalid_byte:
  "lexName uni
     \<lparr>src = [Decoded 0x24, Decoded 0x61, InvalidByte], off = 1, readErr = False,
        token = ''$'', runeSize = 1, tokens = []\<rparr> =
   Some (Some LexRightDelim,
     \<lparr>src = [Decoded 0x24, Decoded 0x61, InvalidByte], off = 2, readErr = False,
        token = [], runeSize = 0, tokens = [tok NAME (''$a'' @ [CHR 0xEF, CHR 0xBF])]\<rparr>)"
  by (simp add: lex_eval cong: eval_cong)

section \<open>The claims\<close>

text \<open>
  C5. The text \<^verbatim>\<open>(module $m (type (func (type 0))))\<close> lexes to fourteen tokens, and \<open>parse\<close>
  on them returns, without a panic, the module named \<open>m\<close> (the \<^verbatim>\<open>$\<close> stripped) with exactly
  one type definition, which has no name and whose signature is the type reference
  holding the variable of index 0, and with no function. (The parser stops before the
  last four tokens.)
\<close>

theorem C5_parse_module_type_ref:
  "lex uni (runesOf ''(module $m (type (func (type 0))))'') =
     Some [tok LPAREN ''('', tok MODULE ''module'', tok NAME ''$m'', tok LPAREN ''('',
           tok TYPE' ''type'', tok LPAREN ''('', tok FUNC ''func'', tok LPAREN ''('',
           tok TYPE' ''type'', tok NUMBER ''0'', tok RPAREN '')'', tok RPAREN '')'',
           tok RPAREN '')'', tok RPAREN '')''] \<and>
   map_sum id fst
     (parse unq
        [tok LPAREN ''('', tok MODULE ''module'', tok NAME ''$m'', tok LPAREN ''('',
         tok TYPE' ''type'', tok LPAREN ''('', tok FUNC ''func'', tok LPAREN ''('',
         tok TYPE' ''type'', tok NUMBER ''0'', tok RPAREN '')'', tok RPAREN '')'',
         tok RPAREN '')'', tok RPAREN '')'']) =
     Inr \<lparr>Module.Name = ''m'',
          Types = [\<lparr>TypeDef.Name = [],
                    Func = \<lparr>FuncSig.Type = Some \<lparr>Var = \<lparr>Index = 0, Variable.Name = []\<rparr>\<rparr>,
                            Params = [], Results = []\<rparr>\<rparr>],
          Funcs = []\<rparr>"
proof
  show "lex uni (runesOf ''(module $m (type (func (type 0))))'') =
     Some [tok LPAREN ''('', tok MODULE ''module'', tok NAME ''$m'', tok LPAREN ''('',
           tok TYPE' ''type'', tok LPAREN ''('', tok FUNC ''func'', tok LPAREN ''('',
           tok TYPE' ''type'', tok NUMBER ''0'', tok RPAREN '')'', tok RPAREN '')'',
           tok RPAREN '')'', tok RPAREN '')'']"
    by (simp add: lex_eval cong: eval_cong)
  show "map_sum id fst
     (parse unq
        [tok LPAREN ''('', tok MODULE ''module'', tok NAME ''$m'', tok LPAREN ''('',
         tok TYPE' ''type'', tok LPAREN ''('', tok FUNC ''func'', tok LPAREN ''('',
         tok TYPE' ''type'', tok NUMBER ''0'', tok RPAREN '')'', tok RPAREN '')'',
         tok RPAREN '')'', tok RPAREN '')'']) =
     Inr \<lparr>Module.Name = ''m'',
          Types = [\<lparr>TypeDef.Name = [],
                    Func = \<lparr>FuncSig.Type = Some \<lparr>Var = \<lparr>Index = 0, Variable.Name = []\<rparr>\<rparr>,
                            Params = [], Results = []\<rparr>\<rparr>],
          Funcs = []\<rparr>"
    by (simp add: parse_eval cong: eval_cong)
qed


text \<open>
  C2. The text \<^verbatim>\<open>(module)\<close> lexes to \<^verbatim>\<open>LPAREN MODULE RPAREN\<close>, and \<open>parse\<close> on these three
  tokens returns no module: with the cursor on the right parenthesis, \<^verbatim>\<open>peek\<close> reads
  \<^verbatim>\<open>p.buf[p.pos+1]\<close>, index 3 of a buffer of length 3, and the run-time panics.
\<close>

theorem C2_parse_empty_module_panics:
  "lex uni (runesOf ''(module)'') =
     Some [tok LPAREN ''('', tok MODULE ''module'', tok RPAREN '')''] \<and>
   parse unq [tok LPAREN ''('', tok MODULE ''module'', tok RPAREN '')''] =
     Inl (IndexOutOfRange 3 3)"
  by (simp add: lex_eval parse_eval cong: eval_cong)

text \<open>
  C1. The text \<^verbatim>\<open>(func (import "env" "f") (param i32) (result i32))\<close> lexes to sixteen
  tokens, and \<open>parseFunc\<close>, started after the first two, returns no function:
  \<^verbatim>\<open>parseParamList\<close> consumes \<^verbatim>\<open>( param\<close> with \<^verbatim>\<open>match\<close>, and \<^verbatim>\<open>parseParam\<close> then expects a
  left parenthesis where the token \<^verbatim>\<open>i32\<close> stands, and panics.
\<close>

theorem C1_parseFunc_import_panics:
  "lex uni (runesOf (''(func (import '' @ [dquote] @ ''env'' @ [dquote] @ '' '' @ [dquote] @
                     ''f'' @ [dquote] @ '') (param i32) (result i32))'')) =
     Some [tok LPAREN ''('', tok FUNC ''func'', tok LPAREN ''('', tok IMPORT ''import'',
           tok STRING ([dquote] @ ''env'' @ [dquote]), tok STRING ([dquote] @ ''f'' @ [dquote]),
           tok RPAREN '')'', tok LPAREN ''('', tok PARAM ''param'', tok I32 ''i32'',
           tok RPAREN '')'', tok LPAREN ''('', tok RESULT ''result'', tok I32 ''i32'',
           tok RPAREN '')'', tok RPAREN '')''] \<and>
   parseFunc unq
     \<lparr>buf = [tok LPAREN ''('', tok FUNC ''func'', tok LPAREN ''('', tok IMPORT ''import'',
             tok STRING ([dquote] @ ''env'' @ [dquote]), tok STRING ([dquote] @ ''f'' @ [dquote]),
             tok RPAREN '')'', tok LPAREN ''('', tok PARAM ''param'', tok I32 ''i32'',
             tok RPAREN '')'', tok LPAREN ''('', tok RESULT ''result'', tok I32 ''i32'',
             tok RPAREN '')'', tok RPAREN '')''],
      pos = 2\<rparr> =
     Inl (ExpectedOneOf [LPAREN] (tok I32 ''i32''))"
  by (simp add: lex_eval parse_eval cong: eval_cong)

text \<open>
  \<open>parse\<close> never consumes the whole buffer: it returns from the loop of \<^verbatim>\<open>parseModule\<close>
  only when the token after the next one is a right parenthesis, and consumes neither.
\<close>

lemma parseModuleFrom_leaves_tokens:
  "parseModuleFrom unq m p = Inr (m', p') \<Longrightarrow> buf p' = buf p \<and> pos p' + 2 \<le> length (buf p)"
proof (induction unq m p rule: parseModuleFrom.induct)
  case (1 unq m p)
  from "1.prems" obtain isType p1 where a: "match [LPAREN, TYPE'] p = Inr (isType, p1)"
    by (subst (asm) parseModuleFrom.simps) (auto simp: bindP_eq_Inr)
  from match_adv[OF a] have p1: "buf p1 = buf p" by simp
  show ?case
  proof (cases isType)
    case True
    with "1.prems" a obtain d p2 where b: "parseTypeDef p1 = Inr (d, p2)"
      and c: "parseModuleFrom unq (m\<lparr>Types := Types m @ [d]\<rparr>) p2 = Inr (m', p')"
      by (subst (asm) parseModuleFrom.simps) (auto simp: bindP_eq_Inr)
    from "1.IH"(1)[OF a refl True b refl c] parseTypeDef_adv[OF b] p1 show ?thesis by simp
  next
    case False
    with "1.prems" a obtain isFunc p2 where b: "match [LPAREN, FUNC] p1 = Inr (isFunc, p2)"
      by (subst (asm) parseModuleFrom.simps) (auto simp: bindP_eq_Inr)
    from match_adv[OF b] p1 have p2: "buf p2 = buf p" by simp
    show ?thesis
    proof (cases isFunc)
      case True
      with "1.prems" a b False obtain f p3 where c: "parseFunc unq p2 = Inr (f, p3)"
        and d: "parseModuleFrom unq (m\<lparr>Funcs := Funcs m @ [f]\<rparr>) p3 = Inr (m', p')"
        by (subst (asm) parseModuleFrom.simps) (auto simp: bindP_eq_Inr)
      from "1.IH"(2)[OF a refl False b refl True c refl d] parseFunc_adv[OF c] p2
      show ?thesis by simp
    next
      case isFunc: False
      with "1.prems" a b False have
        "bindP (parser_peek p2) (\<lambda>t.
           if typ' t = RPAREN then Inr (m, p2)
           else bindP (parser_peek p2) (\<lambda>t'. Inl (MalformedModule t'))) = Inr (m', p')"
        by (subst (asm) parseModuleFrom.simps) simp
      then obtain t where pk: "parser_peek p2 = Inr t"
        and t: "typ' t = RPAREN" and e: "p' = p2"
        by (cases "parser_peek p2") (auto split: if_splits)
      from pk t have "pos p2 + 1 < length (buf p2)"
        by (auto simp: parser_peek_def zeroToken_def split: if_splits)
      with e p2 show ?thesis by simp
    qed
  qed
qed

lemma parse_leaves_tokens:
  assumes "parse unq toks = Inr (m, p')"
  shows "buf p' = toks \<and> pos p' + 2 \<le> length toks"
proof -
  from assms obtain t1 p1 t2 p2 n p3 where
    a: "expect [LPAREN] (newParser toks) = Inr (t1, p1)" and
    b: "expect [MODULE] p1 = Inr (t2, p2)" and
    c: "maybeName [] p2 = Inr (n, p3)" and
    d: "parseModuleFrom unq \<lparr>Module.Name = n, Types = [], Funcs = []\<rparr> p3 = Inr (m, p')"
    unfolding parse_def parseModule_def by (clarsimp simp: bindP_eq_Inr)
  from expect_adv[OF a] expect_adv[OF b] maybeName_adv[OF c]
  have "buf p3 = toks" by (simp add: newParser_def)
  with parseModuleFrom_leaves_tokens[OF d] show ?thesis by simp
qed

text \<open>
  C3. \<open>parse\<close> returns a module for \<^verbatim>\<open>(module))\<close>, whose second right parenthesis matches
  nothing, and for the same tokens followed by an \<^verbatim>\<open>ERROR\<close> token; in both it has consumed
  two tokens only.
\<close>

theorem C3_parse_accepts_malformed:
  "parse unq [tok LPAREN ''('', tok MODULE ''module'', tok RPAREN '')'', tok RPAREN '')''] =
     Inr (\<lparr>Module.Name = [], Types = [], Funcs = []\<rparr>,
          \<lparr>buf = [tok LPAREN ''('', tok MODULE ''module'', tok RPAREN '')'', tok RPAREN '')''],
           pos = 2\<rparr>) \<and>
   parse unq [tok LPAREN ''('', tok MODULE ''module'', tok RPAREN '')'', tok RPAREN '')'',
              tok ERROR ''unclosed string literal''] =
     Inr (\<lparr>Module.Name = [], Types = [], Funcs = []\<rparr>,
          \<lparr>buf = [tok LPAREN ''('', tok MODULE ''module'', tok RPAREN '')'', tok RPAREN '')'',
                  tok ERROR ''unclosed string literal''],
           pos = 2\<rparr>)"
  by (simp add: parse_eval cong: eval_cong)


text \<open>The loop over the types of a local clause, on a run of type tokens.\<close>

lemma localTypes_run:
  assumes "\<forall>t\<in>set ts. typ' t \<in> {F32, F64, I32, I64}"
    and "typ' stop \<notin> {F32, F64, I32, I64}"
  shows "localTypes acc \<lparr>buf = pre @ ts @ stop # rest, pos = length pre\<rparr> =
           Inr (acc @ map (\<lambda>t. \<lparr>Local.Name = [], Type = typ' t\<rparr>) ts,
                \<lparr>buf = pre @ ts @ stop # rest, pos = length pre + length ts\<rparr>)"
  using assms(1)
proof (induction ts arbitrary: pre acc)
  case Nil
  from assms(2) show ?case
    by (subst localTypes.simps)
       (simp add: acceptIsType_def parser_accept_def parser_read_def parser_unread_def)
next
  case (Cons t ts)
  from Cons.prems have t: "typ' t \<in> {F32, F64, I32, I64}" and ts: "\<forall>t\<in>set ts. typ' t \<in> {F32, F64, I32, I64}"
    by simp_all
  have "localTypes acc \<lparr>buf = pre @ (t # ts) @ stop # rest, pos = length pre\<rparr> =
        localTypes (acc @ [\<lparr>Local.Name = [], Type = typ' t\<rparr>])
          \<lparr>buf = (pre @ [t]) @ ts @ stop # rest, pos = length (pre @ [t])\<rparr>"
    using t
    by (subst localTypes.simps)
       (auto simp: acceptIsType_def parser_accept_def parser_read_def)
  also have "\<dots> = Inr ((acc @ [\<lparr>Local.Name = [], Type = typ' t\<rparr>]) @
                         map (\<lambda>t. \<lparr>Local.Name = [], Type = typ' t\<rparr>) ts,
                       \<lparr>buf = (pre @ [t]) @ ts @ stop # rest, pos = length (pre @ [t]) + length ts\<rparr>)"
    by (rule Cons.IH[OF ts])
  finally show ?case by simp
qed

text \<open>
  C9. On a buffer that continues, at the cursor, with an unnamed local clause
  \<^verbatim>\<open>( local t1 ... tn )\<close> (\<open>n\<close> value types, \<open>n\<close> possibly 0) and then anything, further local
  clauses included, \<open>parseLocalList\<close> returns the empty list, and leaves the cursor on the
  right parenthesis of that first clause: the types went to the inner slice, and the
  parenthesis is not consumed.
\<close>

theorem C9_parseLocalList_unnamed_empty:
  assumes "typ' lp = LPAREN" and "typ' lo = LOCAL" and "typ' rp = RPAREN"
    and "\<forall>t\<in>set ts. typ' t \<in> {F32, F64, I32, I64}"
  shows "parseLocalList \<lparr>buf = pre @ [lp, lo] @ ts @ [rp] @ rest, pos = length pre\<rparr> =
           Inr ([], \<lparr>buf = pre @ [lp, lo] @ ts @ [rp] @ rest, pos = length pre + 2 + length ts\<rparr>) \<and>
         (pre @ [lp, lo] @ ts @ [rp] @ rest) ! (length pre + 2 + length ts) = rp"
proof -
  let ?b = "pre @ [lp, lo] @ ts @ [rp] @ rest"
  have b: "?b = (pre @ [lp, lo]) @ ts @ rp # rest" by simp
  have nth: "?b ! (length pre + 2 + length ts) = rp"
    by (simp add: nth_append)
  have m1: "match [LPAREN, LOCAL] \<lparr>buf = ?b, pos = length pre\<rparr> =
              Inr (True, \<lparr>buf = ?b, pos = length pre + 2\<rparr>)"
    using assms(1,2) by (simp add: match_def parser_read_def nth_append)
  have hd: "typ' (?b ! (length pre + 2)) \<noteq> NAME"
    using assms(3,4) by (cases ts) (auto simp: nth_append)
  have a1: "parser_accept [NAME] \<lparr>buf = ?b, pos = length pre + 2\<rparr> =
              Inr (zeroToken, False, \<lparr>buf = ?b, pos = length pre + 2\<rparr>)"
    using hd by (simp add: parser_accept_def parser_read_def parser_unread_def)
  have l1: "localTypes [] \<lparr>buf = ?b, pos = length pre + 2\<rparr> =
              Inr (map (\<lambda>t. \<lparr>Local.Name = [], Type = typ' t\<rparr>) ts,
                   \<lparr>buf = ?b, pos = length pre + 2 + length ts\<rparr>)"
    using localTypes_run[OF assms(4), of rp "[]" "pre @ [lp, lo]" rest] assms(3)
    by (simp add: b)
  have m2: "match [LPAREN, LOCAL] \<lparr>buf = ?b, pos = length pre + 2 + length ts\<rparr> =
              Inr (False, \<lparr>buf = ?b, pos = length pre + 2 + length ts\<rparr>)"
    using assms(3) nth
    by (simp add: match_def parser_read_def parser_unread_def)
  have "parseLocalList \<lparr>buf = ?b, pos = length pre\<rparr> =
          parseLocalListFrom [] \<lparr>buf = ?b, pos = length pre + 2 + length ts\<rparr>"
    unfolding parseLocalList_def
    by (subst parseLocalListFrom.simps) (simp only: m1 a1 l1 bindP_simps split if_False not_True_eq_False not_False_eq_True if_True)
  also have "\<dots> = Inr ([], \<lparr>buf = ?b, pos = length pre + 2 + length ts\<rparr>)"
    by (subst parseLocalListFrom.simps) (simp only: m2 bindP_simps split not_False_eq_True if_True)
  finally show ?thesis using nth by simp
qed

theorem C9_parseLocalList_unnamed_empty_witness:
  "typ' (tok LPAREN ''('') = LPAREN \<and> typ' (tok LOCAL ''local'') = LOCAL \<and>
   typ' (tok RPAREN '')'') = RPAREN \<and>
   list_all (\<lambda>t. typ' t \<in> {F32, F64, I32, I64}) [tok I32 ''i32'', tok I64 ''i64''] \<and>
   parseLocalList
     \<lparr>buf = [tok LPAREN ''('', tok LOCAL ''local'', tok I32 ''i32'', tok I64 ''i64'',
             tok RPAREN '')'', tok LPAREN ''('', tok LOCAL ''local'', tok F32 ''f32'',
             tok RPAREN '')'', tok RPAREN '')''],
      pos = 0\<rparr> =
     Inr ([],
          \<lparr>buf = [tok LPAREN ''('', tok LOCAL ''local'', tok I32 ''i32'', tok I64 ''i64'',
                  tok RPAREN '')'', tok LPAREN ''('', tok LOCAL ''local'', tok F32 ''f32'',
                  tok RPAREN '')'', tok RPAREN '')''],
           pos = 4\<rparr>)"
  using C9_parseLocalList_unnamed_empty
    [of "tok LPAREN ''(''" "tok LOCAL ''local''" "tok RPAREN '')''"
        "[tok I32 ''i32'', tok I64 ''i64'']" "[]"
        "[tok LPAREN ''('', tok LOCAL ''local'', tok F32 ''f32'', tok RPAREN '')'', tok RPAREN '')'']"]
  by (simp add: tok_def)


text \<open>
  C10. The scanner accepts the string \<^verbatim>\<open>"\5A"\<close> (a backslash and two hexadecimal digits) as
  one \<^verbatim>\<open>STRING\<close> token. Whenever the decoder rejects the text \<open>s\<close> of the \<^verbatim>\<open>STRING\<close> token of an
  export clause, or of either \<^verbatim>\<open>STRING\<close> token of an import clause, \<open>parseFunc\<close> still returns
  a function, without a panic, in which the export name, the import module or the import
  name is the empty string.
\<close>

theorem C10_unquote_error_dropped:
  assumes "unq s = None"
  shows
    "lex uni (runesOf ([dquote, backslash] @ ''5A'' @ [dquote])) =
       Some [tok STRING ([dquote, backslash] @ ''5A'' @ [dquote])] \<and>
     parseFunc unq
       \<lparr>buf = [tok LPAREN ''('', tok FUNC ''func'', tok LPAREN ''('', tok EXPORT ''export'',
               tok STRING s, tok RPAREN '')'', tok RPAREN '')''],
        pos = 2\<rparr> =
       Inr (\<lparr>Func.Name = [], Signature = newFuncSig, Locals = [],
              Export = Some \<lparr>EmbeddedExport.Name = []\<rparr>, Import = None\<rparr>,
            \<lparr>buf = [tok LPAREN ''('', tok FUNC ''func'', tok LPAREN ''('', tok EXPORT ''export'',
                    tok STRING s, tok RPAREN '')'', tok RPAREN '')''],
             pos = 7\<rparr>) \<and>
     parseFunc unq
       \<lparr>buf = [tok LPAREN ''('', tok FUNC ''func'', tok LPAREN ''('', tok IMPORT ''import'',
               tok STRING s, tok STRING t, tok RPAREN '')'', tok RPAREN '')''],
        pos = 2\<rparr> =
       Inr (\<lparr>Func.Name = [], Signature = newFuncSig, Locals = [], Export = None,
              Import = Some \<lparr>Module = [], EmbeddedImport.Name = unquoted unq t\<rparr>\<rparr>,
            \<lparr>buf = [tok LPAREN ''('', tok FUNC ''func'', tok LPAREN ''('', tok IMPORT ''import'',
                    tok STRING s, tok STRING t, tok RPAREN '')'', tok RPAREN '')''],
             pos = 7\<rparr>) \<and>
     parseFunc unq
       \<lparr>buf = [tok LPAREN ''('', tok FUNC ''func'', tok LPAREN ''('', tok IMPORT ''import'',
               tok STRING t, tok STRING s, tok RPAREN '')'', tok RPAREN '')''],
        pos = 2\<rparr> =
       Inr (\<lparr>Func.Name = [], Signature = newFuncSig, Locals = [], Export = None,
              Import = Some \<lparr>Module = unquoted unq t, EmbeddedImport.Name = []\<rparr>\<rparr>,
            \<lparr>buf = [tok LPAREN ''('', tok FUNC ''func'', tok LPAREN ''('', tok IMPORT ''import'',
                    tok STRING t, tok STRING s, tok RPAREN '')'', tok RPAREN '')''],
             pos = 7\<rparr>)"
proof (intro conjI)
  show "lex uni (runesOf ([dquote, backslash] @ ''5A'' @ [dquote])) =
       Some [tok STRING ([dquote, backslash] @ ''5A'' @ [dquote])]"
    by (simp add: lex_eval cong: eval_cong)
  show "parseFunc unq
       \<lparr>buf = [tok LPAREN ''('', tok FUNC ''func'', tok LPAREN ''('', tok EXPORT ''export'',
               tok STRING s, tok RPAREN '')'', tok RPAREN '')''],
        pos = 2\<rparr> =
       Inr (\<lparr>Func.Name = [], Signature = newFuncSig, Locals = [],
              Export = Some \<lparr>EmbeddedExport.Name = []\<rparr>, Import = None\<rparr>,
            \<lparr>buf = [tok LPAREN ''('', tok FUNC ''func'', tok LPAREN ''('', tok EXPORT ''export'',
                    tok STRING s, tok RPAREN '')'', tok RPAREN '')''],
             pos = 7\<rparr>)"
    using assms by (simp add: parse_eval cong: eval_cong)
  show "parseFunc unq
       \<lparr>buf = [tok LPAREN ''('', tok FUNC ''func'', tok LPAREN ''('', tok IMPORT ''import'',
               tok STRING s, tok STRING t, tok RPAREN '')'', tok RPAREN '')''],
        pos = 2\<rparr> =
       Inr (\<lparr>Func.Name = [], Signature = newFuncSig, Locals = [], Export = None,
              Import = Some \<lparr>Module = [], EmbeddedImport.Name = unquoted unq t\<rparr>\<rparr>,
            \<lparr>buf = [tok LPAREN ''('', tok FUNC ''func'', tok LPAREN ''('', tok IMPORT ''import'',
                    tok STRING s, tok STRING t, tok RPAREN '')'', tok RPAREN '')''],
             pos = 7\<rparr>)"
    using assms by (simp add: parse_eval cong: eval_cong)
  show "parseFunc unq
       \<lparr>buf = [tok LPAREN ''('', tok FUNC ''func'', tok LPAREN ''('', tok IMPORT ''import'',
               tok STRING t, tok STRING s, tok RPAREN '')'', tok RPAREN '')''],
        pos = 2\<rparr> =
       Inr (\<lparr>Func.Name = [], Signature = newFuncSig, Locals = [], Export = None,
              Import = Some \<lparr>Module = unquoted unq t, EmbeddedImport.Name = []\<rparr>\<rparr>,
            \<lparr>buf = [tok LPAREN ''('', tok FUNC ''func'', tok LPAREN ''('', tok IMPORT ''import'',
                    tok STRING t, tok STRING s, tok RPAREN '')'', tok RPAREN '')''],
             pos = 7\<rparr>)"
    using assms by (simp add: parse_eval cong: eval_cong)
qed


text \<open>
  The witness takes a decoder that knows the literal \<^verbatim>\<open>"f"\<close> only, and the text \<^verbatim>\<open>"\5A"\<close>.
\<close>

theorem C10_unquote_error_dropped_witness:
  "[[dquote] @ ''f'' @ [dquote] \<mapsto> ''f''] ([dquote, backslash] @ ''5A'' @ [dquote]) = None \<and>
   parseFunc [[dquote] @ ''f'' @ [dquote] \<mapsto> ''f'']
     \<lparr>buf = [tok LPAREN ''('', tok FUNC ''func'', tok LPAREN ''('', tok EXPORT ''export'',
             tok STRING ([dquote, backslash] @ ''5A'' @ [dquote]), tok RPAREN '')'',
             tok RPAREN '')''],
      pos = 2\<rparr> =
     Inr (\<lparr>Func.Name = [], Signature = newFuncSig, Locals = [],
            Export = Some \<lparr>EmbeddedExport.Name = []\<rparr>, Import = None\<rparr>,
          \<lparr>buf = [tok LPAREN ''('', tok FUNC ''func'', tok LPAREN ''('', tok EXPORT ''export'',
                  tok STRING ([dquote, backslash] @ ''5A'' @ [dquote]), tok RPAREN '')'',
                  tok RPAREN '')''],
           pos = 7\<rparr>) \<and>
   parseFunc [[dquote] @ ''f'' @ [dquote] \<mapsto> ''f'']
     \<lparr>buf = [tok LPAREN ''('', tok FUNC ''func'', tok LPAREN ''('', tok IMPORT ''import'',
             tok STRING ([dquote, backslash] @ ''5A'' @ [dquote]),
             tok STRING ([dquote] @ ''f'' @ [dquote]), tok RPAREN '')'', tok RPAREN '')''],
      pos = 2\<rparr> =
     Inr (\<lparr>Func.Name = [], Signature = newFuncSig, Locals = [], Export = None,
            Import = Some \<lparr>Module = [], EmbeddedImport.Name = ''f''\<rparr>\<rparr>,
          \<lparr>buf = [tok LPAREN ''('', tok FUNC ''func'', tok LPAREN ''('', tok IMPORT ''import'',
                  tok STRING ([dquote, backslash] @ ''5A'' @ [dquote]),
                  tok STRING ([dquote] @ ''f'' @ [dquote]), tok RPAREN '')'', tok RPAREN '')''],
           pos = 7\<rparr>)"
proof -
  have h: "[[dquote] @ ''f'' @ [dquote] \<mapsto> ''f''] ([dquote, backslash] @ ''5A'' @ [dquote]) = None"
    by simp
  show ?thesis
    using h C10_unquote_error_dropped
      [where unq = "[[dquote] @ ''f'' @ [dquote] \<mapsto> ''f'']"
         and s = "[dquote, backslash] @ ''5A'' @ [dquote]"
         and t = "[dquote] @ ''f'' @ [dquote]" and uni = asciiTables]
    by (simp add: unquoted_def)
qed


text \<open>
  C6. The hexadecimal literal \<^verbatim>\<open>0xabc.defe-2\<close>, followed by a space, does not lex as one
  \<^verbatim>\<open>NUMBER\<close> token: the run of hexadecimal digits after the point takes the \<^verbatim>\<open>e\<close>, the
  exponent is not entered, the token ends before the sign, and the right-delimiter check
  fails on \<^verbatim>\<open>-\<close>. The decimal literal \<^verbatim>\<open>1.5e-2\<close> lexes as one token.
\<close>

theorem C6_hex_signed_exponent_splits:
  "lex uni (runesOf ''0xabc.defe-2 '') =
     Some [tok NUMBER ''0xabc.defe'',
           tok ERROR (''unexpected character U+002D '' @ [squote] @ ''-'' @ [squote] @
                      '', expected one of '' @
                      [dquote, CHR '' '', backslash, backslash, CHR ''n'', backslash, backslash,
                       CHR ''t'', CHR ''('', CHR '')'', dquote])] \<and>
   lex uni (runesOf ''1.5e-2 '') = Some [tok NUMBER ''1.5e-2'']"
  by (simp add: lex_eval cong: eval_cong)


subsection \<open>The scanner never panics and keeps the order of its tokens\<close>

text \<open>
  \<open>inv\<close>: the reader is inside its input, and at the end once a read has failed.
  \<open>unreadable\<close>: \<^verbatim>\<open>unread\<close> does not panic. \<open>keep\<close>: a call changes neither the input nor the
  tokens and preserves \<open>inv\<close>.
\<close>

definition inv :: "lexer \<Rightarrow> bool" where
  "inv l \<longleftrightarrow> off l \<le> length (src l) \<and> (readErr l \<longrightarrow> off l = length (src l))"

definition unreadable :: "lexer \<Rightarrow> bool" where
  "unreadable l \<longleftrightarrow> readErr l \<or> (0 < runeSize l \<and> runeSize l \<le> length (token l))"

definition keep :: "lexer \<Rightarrow> lexer \<Rightarrow> bool" where
  "keep l l' \<longleftrightarrow> src l' = src l \<and> tokens l' = tokens l \<and> (inv l \<longrightarrow> inv l')"

lemma keep_refl [simp]: "keep l l"
  by (simp add: keep_def)

lemma keep_trans: "keep l l1 \<Longrightarrow> keep l1 l2 \<Longrightarrow> keep l l2"
  by (auto simp: keep_def)

lemma read_keep:
  assumes "lexer_read l = (r, l')"
  shows "keep l l' \<and> unreadable l' \<and> (r = eof \<longrightarrow> readErr l')"
  using assms
  by (auto simp: lexer_read_def keep_def inv_def unreadable_def sizeOf_bounds sizeOf_le_add
           split: if_splits)

lemma unread_keep:
  assumes "unreadable l"
  shows "\<exists>l'. lexer_unread l = Some l' \<and> keep l l' \<and> readErr l' = readErr l"
  using assms
  by (auto simp: lexer_unread_def keep_def inv_def unreadable_def)

lemma accept_keep:
  "\<exists>b l'. lexer_accept v l = Some (b, l') \<and> keep l l' \<and> (b \<longrightarrow> unreadable l')"
proof -
  obtain r l1 where rd: "lexer_read l = (r, l1)" by (cases "lexer_read l")
  from read_keep[OF rd] have k: "keep l l1" and u: "unreadable l1" by simp_all
  show ?thesis
  proof (cases "containsRune v r")
    case True
    with rd k u show ?thesis by (auto simp: lexer_accept_def)
  next
    case False
    from unread_keep[OF u] obtain l2 where "lexer_unread l1 = Some l2" "keep l1 l2" by blast
    with rd False keep_trans[OF k] show ?thesis by (auto simp: lexer_accept_def)
  qed
qed

lemma peek_keep:
  "\<exists>r l'. lexer_peek l = Some (r, l') \<and> keep l l' \<and> (r = eof \<longrightarrow> readErr l')"
proof -
  obtain r l1 where rd: "lexer_read l = (r, l1)" by (cases "lexer_read l")
  from read_keep[OF rd] have k: "keep l l1" and u: "unreadable l1" and e: "r = eof \<longrightarrow> readErr l1"
    by simp_all
  from unread_keep[OF u] obtain l2 where "lexer_unread l1 = Some l2" "keep l1 l2"
    "readErr l2 = readErr l1" by blast
  with rd e keep_trans[OF k] show ?thesis by (auto simp: lexer_peek_def)
qed

lemma readRun_keep: "keep l (readRun v l) \<and> unreadable (readRun v l)"
proof (induction v l rule: readRun.induct)
  case (1 valid l)
  obtain r l1 where rd: "lexer_read l = (r, l1)" by (cases "lexer_read l")
  show ?case
  proof (cases "containsRune valid r")
    case True
    with rd have eq: "readRun valid l = readRun valid l1" by (subst readRun.simps) simp
    from "1.IH"[OF rd[symmetric] True] read_keep[OF rd] show ?thesis
      unfolding eq by (auto intro: keep_trans)
  next
    case False
    with rd have eq: "readRun valid l = l1" by (subst readRun.simps) simp
    from read_keep[OF rd] show ?thesis unfolding eq by simp
  qed
qed

lemma acceptRun_keep: "\<exists>l'. acceptRun v l = Some l' \<and> keep l l'"
  using unread_keep[of "readRun v l"] readRun_keep[of l v]
  by (auto simp: acceptRun_def intro: keep_trans)

lemma discardRun_keep: "\<exists>l'. discardRun v l = Some l' \<and> keep l l'"
proof -
  from unread_keep[of "readRun v l"] readRun_keep[of l v]
  obtain l1 where u: "lexer_unread (readRun v l) = Some l1" and k: "keep l l1"
    by (auto intro: keep_trans)
  have "keep l1 (l1\<lparr>token := []\<rparr>)" by (simp add: keep_def inv_def)
  with u k show ?thesis by (auto simp: discardRun_def intro: keep_trans)
qed


text \<open>
  What one call of a state function does to the tokens: with a next state, it appends
  tokens that are not errors; with the nil state, it appends exactly one \<^verbatim>\<open>ERROR\<close> token, or
  nothing when the input has ended.
\<close>

definition noError :: "token list \<Rightarrow> bool" where
  "noError ts = list_all (\<lambda>t. typ' t \<noteq> ERROR) ts"

definition stepsTo :: "lexer \<Rightarrow> stateFn option \<Rightarrow> lexer \<Rightarrow> bool" where
  "stepsTo l st l' \<longleftrightarrow>
     src l' = src l \<and> (inv l \<longrightarrow> inv l') \<and>
     (case st of
        Some s \<Rightarrow> (\<exists>new. tokens l' = tokens l @ new \<and> noError new)
      | None \<Rightarrow> (\<exists>msg. tokens l' = tokens l @ [\<lparr>typ' = ERROR, text' = msg\<rparr>]) \<or>
                (tokens l' = tokens l \<and> readErr l'))"

lemma stepsTo_next: "keep l l1 \<Longrightarrow> stepsTo l (Some s) l1"
  by (auto simp: stepsTo_def keep_def noError_def)

lemma stepsTo_emit: "keep l l1 \<Longrightarrow> t \<noteq> ERROR \<Longrightarrow> stepsTo l (Some s) (emit t l1)"
  by (auto simp: stepsTo_def keep_def noError_def emit_def inv_def)

lemma stepsTo_errorf: "keep l l1 \<Longrightarrow> errorf msg l1 = (st, l2) \<Longrightarrow> st = None \<and> stepsTo l None l2"
  by (auto simp: stepsTo_def keep_def errorf_def inv_def)

lemma stepsTo_eof: "keep l l1 \<Longrightarrow> readErr l1 \<Longrightarrow> stepsTo l None l1"
  by (auto simp: stepsTo_def keep_def)

lemma lexAny_total: "\<exists>st l'. lexAny uni l = Some (st, l') \<and> stepsTo l st l'"
proof -
  from discardRun_keep obtain l1 where d: "discardRun [tab, CHR '' ''] l = Some l1"
    and k1: "keep l l1" by blast
  obtain r l2 where rd: "lexer_read l1 = (r, l2)" by (cases "lexer_read l1")
  from read_keep[OF rd] k1 have k2: "keep l l2" and u2: "unreadable l2"
    and e2: "r = eof \<longrightarrow> readErr l2"
    by (auto intro: keep_trans)
  from unread_keep[OF u2] k2 obtain l3 where u3: "lexer_unread l2 = Some l3" and k3: "keep l l3"
    by (auto intro: keep_trans)
  obtain st4 l4 where ef: "errorf (''unexpected character: '' @ fmtU uni r) l2 = (st4, l4)"
    by (cases "errorf (''unexpected character: '' @ fmtU uni r) l2")
  from stepsTo_errorf[OF k2 ef] have s4: "st4 = None" "stepsTo l None l4" by simp_all
  have eq: "lexAny uni l =
     (if containsRune letters r then Some (Some LexAtom, l2)
         else if r = rn CHR ''('' then Some (Some LexAny, emit LPAREN l2)
         else if r = rn CHR '')'' then Some (Some LexAny, emit RPAREN l2)
         else if r = rn CHR ''_'' then Some (Some LexAny, emit UNDERSCORE l2)
         else if r = rn CHR ''='' then Some (Some LexAny, emit EQUAL l2)
         else if r = rn CHR ''/'' then Some (Some LexAny, emit SLASH l2)
         else if r = rn CHR ''.'' then Some (Some LexAny, emit DOT l2)
         else if r = rn CHR ''$'' then Some (Some LexName, l2)
         else if r = rn dquote then Some (Some LexString, l2)
         else if r = rn CHR ''+'' \<or> r = rn CHR ''-'' \<or> (rn CHR ''0'' \<le> r \<and> r \<le> rn CHR ''9'') then
           Some (Some LexNumber, l3)
         else if r = rn newline then Some (Some LexAny, l2)
         else if r = eof then Some (None, l2)
         else Some (None, l4))"
    using d rd u3 ef s4(1) by (simp add: lexAny_def)
  show ?thesis
    unfolding eq
    using stepsTo_next[OF k2] stepsTo_next[OF k3] stepsTo_emit[OF k2] s4(2) stepsTo_eof[OF k2] e2
    by simp
qed

lemma lexRightDelim_total: "\<exists>st l'. lexRightDelim uni l = Some (st, l') \<and> stepsTo l st l'"
proof -
  from accept_keep obtain ok l1 where
    a: "lexer_accept ([CHR '' '', newline, tab] @ ''()'') l = Some (ok, l1)"
    and k1: "keep l l1" and u1: "ok \<longrightarrow> unreadable l1" by blast
  show ?thesis
  proof (cases ok)
    case True
    with u1 unread_keep[of l1] k1 obtain l2 where "lexer_unread l1 = Some l2" "keep l l2"
      by (auto intro: keep_trans)
    with a True stepsTo_next[of l l2 LexAny] show ?thesis
      by (simp add: lexRightDelim_def)
  next
    case False
    from peek_keep k1 obtain r l2 where p: "lexer_peek l1 = Some (r, l2)" and k2: "keep l l2"
      and e2: "r = eof \<longrightarrow> readErr l2"
      by (blast intro: keep_trans)
    show ?thesis
    proof (cases "r = eof")
      case True
      with e2 have "unreadable l2" by (simp add: unreadable_def)
      from unread_keep[OF this] k2 obtain l3 where "lexer_unread l2 = Some l3" "keep l l3"
        by (auto intro: keep_trans)
      with a False p True stepsTo_next[of l l3 LexAny] show ?thesis
        by (simp add: lexRightDelim_def)
    next
      case ne: False
      from peek_keep k2 obtain r' l3 where p': "lexer_peek l2 = Some (r', l3)" and k3: "keep l l3"
        by (blast intro: keep_trans)
      obtain st4 l4 where ef: "errorf (''unexpected character '' @ fmtU uni r' @ '', expected one of '' @
                     [dquote, CHR '' '', backslash, backslash, CHR ''n'', backslash, backslash,
                      CHR ''t'', CHR ''('', CHR '')'', dquote]) l3 = (st4, l4)"
        by (cases "errorf (''unexpected character '' @ fmtU uni r' @ '', expected one of '' @
                     [dquote, CHR '' '', backslash, backslash, CHR ''n'', backslash, backslash,
                      CHR ''t'', CHR ''('', CHR '')'', dquote]) l3")
      from stepsTo_errorf[OF k3 ef] a False p ne p' ef show ?thesis
        by (simp add: lexRightDelim_def)
    qed
  qed
qed


lemma atom_not_ERROR: "atom k = Some t \<Longrightarrow> t \<noteq> ERROR"
proof -
  have "\<forall>(k, t)\<in>set atom_table. t \<noteq> ERROR"
    by (simp add: atom_table_def)
  then show "atom k = Some t \<Longrightarrow> t \<noteq> ERROR"
    unfolding atom_def by (auto dest!: map_of_SomeD)
qed

lemma lexAtom_total: "\<exists>st l'. lexAtom l = Some (st, l') \<and> stepsTo l st l'"
proof -
  from acceptRun_keep obtain l1 where a: "acceptRun (letters @ digits @ ''_'') l = Some l1"
    and k1: "keep l l1" by blast
  obtain st2 l2 where ef: "errorf (''unexpected token: '' @ token l1) l1 = (st2, l2)"
    by (cases "errorf (''unexpected token: '' @ token l1) l1")
  from stepsTo_errorf[OF k1 ef] have s2: "st2 = None" "stepsTo l None l2" by simp_all
  have three: "stepsTo l (Some LexAny)
      (l1\<lparr>tokens := tokens l1 @
         [\<lparr>typ' = t, text' = x\<rparr>, \<lparr>typ' = UNDERSCORE, text' = ''_''\<rparr>, \<lparr>typ' = y, text' = z\<rparr>]\<rparr>)"
    if "t \<noteq> ERROR" "y \<noteq> ERROR" for t x y z
    using k1 that by (auto simp: stepsTo_def keep_def noError_def inv_def)
  show ?thesis
    using a ef s2 three stepsTo_emit[OF k1]
    by (auto simp: lexAtom_def Let_def dest!: atom_not_ERROR split: option.splits)
qed

lemma lexName_total: "\<exists>st l'. lexName uni l = Some (st, l') \<and> stepsTo l st l'"
proof -
  from accept_keep obtain ok l1 where a: "lexer_accept name l = Some (ok, l1)"
    and k1: "keep l l1" by blast
  show ?thesis
  proof (cases ok)
    case True
    from acceptRun_keep k1 obtain l2 where "acceptRun name l1 = Some l2" "keep l l2"
      by (blast intro: keep_trans)
    with a True stepsTo_emit[of l l2 NAME LexRightDelim] show ?thesis
      by (simp add: lexName_def)
  next
    case False
    from peek_keep k1 obtain r l2 where p: "lexer_peek l1 = Some (r, l2)" and k2: "keep l l2"
      by (blast intro: keep_trans)
    obtain st3 l3 where
      ef: "errorf (''unexpected character in name literal: '' @ fmtU uni r) l2 = (st3, l3)"
      by (cases "errorf (''unexpected character in name literal: '' @ fmtU uni r) l2")
    from stepsTo_errorf[OF k2 ef] a False p ef show ?thesis
      by (simp add: lexName_def)
  qed
qed

lemma illegalEscape_keep: "\<exists>b l'. illegalEscape r l = Some (b, l') \<and> keep l l'"
proof (cases "r = rn backslash")
  case False
  then show ?thesis by (auto simp: illegalEscape_def)
next
  case True
  from accept_keep obtain a l1 where
    a1: "lexer_accept (''nt'' @ [backslash, squote, dquote]) l = Some (a, l1)" and k1: "keep l l1"
    by blast
  from accept_keep k1 obtain h1 l2 where a2: "lexer_accept hexDigits l1 = Some (h1, l2)"
    and k2: "keep l l2" by (blast intro: keep_trans)
  from accept_keep k2 obtain h2 l3 where a3: "lexer_accept hexDigits l2 = Some (h2, l3)"
    and k3: "keep l l3" by (blast intro: keep_trans)
  from True a1 a2 a3 k1 k2 k3 show ?thesis
    by (auto simp: illegalEscape_def)
qed

lemma stepsTo_keep: "keep l l1 \<Longrightarrow> stepsTo l1 st l2 \<Longrightarrow> stepsTo l st l2"
  by (auto simp: stepsTo_def keep_def split: option.splits)

lemma lexString_total: "\<exists>st l'. lexString uni l = Some (st, l') \<and> stepsTo l st l'"
proof (induction uni l rule: lexString.induct)
  case (1 uni l)
  show ?case
  proof (cases "readErr l")
    case True
    then show ?thesis
      by (subst lexString.simps) (simp add: stepsTo_def)
  next
    case ne: False
    obtain r l1 where rd: "lexer_read l = (r, l1)" by (cases "lexer_read l")
    from read_keep[OF rd] have k1: "keep l l1" by simp
    show ?thesis
    proof (cases "r = rn dquote")
      case True
      with ne rd stepsTo_emit[OF k1, of STRING LexRightDelim] show ?thesis
        by (subst lexString.simps) simp
    next
      case nq: False
      from illegalEscape_keep k1 obtain bad l2 where ie: "illegalEscape r l1 = Some (bad, l2)"
        and k2: "keep l l2" by (blast intro: keep_trans)
      obtain st3 l3 where
        e1: "errorf (''illegal escape in string literal: '' @ fmtU uni r) l2 = (st3, l3)"
        by (cases "errorf (''illegal escape in string literal: '' @ fmtU uni r) l2")
      obtain st4 l4 where e2: "errorf ''unclosed string literal'' l2 = (st4, l4)"
        by (cases "errorf ''unclosed string literal'' l2")
      obtain st5 l5 where
        e3: "errorf (''illegal control character in string literal: '' @ fmtU uni r) l2 = (st5, l5)"
        by (cases "errorf (''illegal control character in string literal: '' @ fmtU uni r) l2")
      consider (a) bad | (b) "\<not> bad" "r = rn newline \<or> r = eof"
        | (c) "\<not> bad" "\<not> (r = rn newline \<or> r = eof)" "(0x00 \<le> r \<and> r \<le> 0x1f) \<or> r = 0x7f"
        | (d) "\<not> bad" "\<not> (r = rn newline \<or> r = eof)" "\<not> ((0x00 \<le> r \<and> r \<le> 0x1f) \<or> r = 0x7f)"
        by blast
      then show ?thesis
      proof cases
        case a
        with ne rd nq ie e1 stepsTo_errorf[OF k2 e1] show ?thesis
          by (subst lexString.simps) simp
      next
        case b
        with ne rd nq ie e2 stepsTo_errorf[OF k2 e2] show ?thesis
          by (subst lexString.simps) simp
      next
        case c
        with ne rd nq ie e3 stepsTo_errorf[OF k2 e3] show ?thesis
          by (subst lexString.simps) simp
      next
        case d
        from "1.IH"[OF ne rd[symmetric] nq ie refl d] obtain st l' where
          r: "lexString uni l2 = Some (st, l')" and s: "stepsTo l2 st l'" by blast
        from ne rd nq ie d r stepsTo_keep[OF k2 s] show ?thesis
          by (subst lexString.simps) auto
      qed
    qed
  qed
qed

lemma scanNumber_keep: "\<exists>b l'. scanNumber uni l = Some (b, l') \<and> keep l l'"
proof -
  from accept_keep obtain sign l1 where a1: "lexer_accept ''+-'' l = Some (sign, l1)"
    and k1: "keep l l1" by blast
  from accept_keep k1 obtain zero l2 where a2: "lexer_accept ''0'' l1 = Some (zero, l2)"
    and k2: "keep l l2" by (blast intro: keep_trans)
  from accept_keep[of "''xX''" l2] k2 obtain hex l3 where
    a3: "(if zero then lexer_accept ''xX'' l2 else Some (False, l2)) = Some (hex, l3)"
    and k3: "keep l l3" by (cases zero) (auto intro: keep_trans)
  from acceptRun_keep k3 obtain l4 where
    a4: "acceptRun (if hex then hexDigits else digits) l3 = Some l4"
    and k4: "keep l l4" by (blast intro: keep_trans)
  from accept_keep k4 obtain dot l5 where a5: "lexer_accept ''.'' l4 = Some (dot, l5)"
    and k5: "keep l l5" by (blast intro: keep_trans)
  from acceptRun_keep[of "if hex then hexDigits else digits" l5] k5 obtain l6 where
    a6: "(if dot then acceptRun (if hex then hexDigits else digits) l5 else Some l5) = Some l6"
    and k6: "keep l l6" by (cases dot) (auto intro: keep_trans)
  from accept_keep k6 obtain e l7 where a7: "lexer_accept ''eE'' l6 = Some (e, l7)"
    and k7: "keep l l7" by (blast intro: keep_trans)
  from accept_keep k7 obtain es lx where ax: "lexer_accept ''+-'' l7 = Some (es, lx)"
    and kx: "keep l lx" by (blast intro: keep_trans)
  from acceptRun_keep kx obtain ly where ay: "acceptRun digits lx = Some ly"
    and ky: "keep l ly" by (blast intro: keep_trans)
  from ax ay k7 ky obtain l8 where
    a8: "(if e then do { (esign, l') \<leftarrow> lexer_accept ''+-'' l7; acceptRun digits l' }
          else Some l7) = Some l8"
    and k8: "keep l l8" by (cases e) auto
  from peek_keep k8 obtain r l9 where a9: "lexer_peek l8 = Some (r, l9)" and k9: "keep l l9"
    by (blast intro: keep_trans)
  from a1 a2 a3 a4 a5 a6 a7 a8 a9 k9 show ?thesis
    by (simp add: scanNumber_def Let_def)
qed

lemma lexNumber_total: "\<exists>st l'. lexNumber uni l = Some (st, l') \<and> stepsTo l st l'"
proof -
  from scanNumber_keep obtain ok l1 where a: "scanNumber uni l = Some (ok, l1)"
    and k1: "keep l l1" by blast
  show ?thesis
  proof (cases ok)
    case True
    with a stepsTo_emit[OF k1, of NUMBER LexRightDelim] show ?thesis
      by (simp add: lexNumber_def)
  next
    case False
    from peek_keep k1 obtain r l2 where p: "lexer_peek l1 = Some (r, l2)" and k2: "keep l l2"
      by (blast intro: keep_trans)
    obtain st3 l3 where
      ef: "errorf (''unexpected character in number literal: '' @ fmtU uni r) l2 = (st3, l3)"
      by (cases "errorf (''unexpected character in number literal: '' @ fmtU uni r) l2")
    from stepsTo_errorf[OF k2 ef] a False p ef show ?thesis
      by (simp add: lexNumber_def)
  qed
qed

lemma step_total: "\<exists>st' l'. step uni st l = Some (st', l') \<and> stepsTo l st' l'"
  by (cases st)
     (simp_all add: lexAny_total lexRightDelim_total lexAtom_total lexName_total
        lexString_total lexNumber_total)

lemma noError_Nil [simp]: "noError []"
  by (simp add: noError_def)

lemma noError_append [simp]: "noError (xs @ ys) \<longleftrightarrow> noError xs \<and> noError ys"
  by (simp add: noError_def)

lemma lexLoop_total:
  "\<exists>l' new. lexLoop uni st l = Some l' \<and> src l' = src l \<and> (inv l \<longrightarrow> inv l') \<and>
       tokens l' = tokens l @ new \<and>
       ((noError new \<and> readErr l') \<or>
        (\<exists>pre msg. new = pre @ [\<lparr>typ' = ERROR, text' = msg\<rparr>] \<and> noError pre))"
proof (induction uni st l rule: lexLoop.induct)
  case (1 uni st l)
  let ?l0 = "l\<lparr>readErr := False\<rparr>"
  have i0: "inv l \<longrightarrow> inv ?l0" by (simp add: inv_def)
  from step_total obtain st' l1 where stp: "step uni st ?l0 = Some (st', l1)"
    and s: "stepsTo ?l0 st' l1" by blast
  from s i0 have src1: "src l1 = src l" and i1: "inv l \<longrightarrow> inv l1" by (simp_all add: stepsTo_def)
  show ?case
  proof (cases "readErr l1")
    case True
    with stp have eq: "lexLoop uni st l = Some l1" by (subst lexLoop.simps) simp
    from s True src1 i1 show ?thesis
      unfolding eq by (cases st') (auto simp: stepsTo_def noError_def)
  next
    case ne: False
    show ?thesis
    proof (cases st')
      case None
      with stp ne have eq: "lexLoop uni st l = Some l1" by (subst lexLoop.simps) simp
      from s None ne src1 i1 show ?thesis
        unfolding eq by (auto simp: stepsTo_def noError_def)
    next
      case (Some s')
      with stp ne have eq: "lexLoop uni st l = lexLoop uni s' l1" by (subst lexLoop.simps) simp
      from s Some obtain new1 where n1: "tokens l1 = tokens l @ new1" "noError new1"
        by (auto simp: stepsTo_def)
      from "1.IH"[OF stp refl ne Some] obtain l' new2 where
        r: "lexLoop uni s' l1 = Some l'" "src l' = src l1" "inv l1 \<longrightarrow> inv l'"
           "tokens l' = tokens l1 @ new2"
        and sh: "(noError new2 \<and> readErr l') \<or>
                 (\<exists>pre msg. new2 = pre @ [\<lparr>typ' = ERROR, text' = msg\<rparr>] \<and> noError pre)"
        by blast
      from sh n1(2) have "(noError (new1 @ new2) \<and> readErr l') \<or>
          (\<exists>pre msg. new1 @ new2 = pre @ [\<lparr>typ' = ERROR, text' = msg\<rparr>] \<and> noError pre)"
      proof (elim disjE exE conjE)
        assume "noError new2" "readErr l'"
        with n1(2) show ?thesis by simp
      next
        fix pre msg
        assume "new2 = pre @ [\<lparr>typ' = ERROR, text' = msg\<rparr>]" "noError pre"
        with n1(2) have "new1 @ new2 = (new1 @ pre) @ [\<lparr>typ' = ERROR, text' = msg\<rparr>] \<and>
            noError (new1 @ pre)" by simp
        then show ?thesis by blast
      qed
      with r n1 src1 i1 show ?thesis
        unfolding eq by auto
    qed
  qed
qed

text \<open>
  C4. For every input (every sequence of deliveries of \<^verbatim>\<open>ReadRune\<close>, invalid bytes
  included), all Unicode tables, every state \<open>st\<close> and every lexer \<open>l\<close>:

  \<^item> the state function called by the loop returns (no panic) and only appends to the
    tokens: tokens that are not errors when it returns a next state; exactly one \<^verbatim>\<open>ERROR\<close>
    token, or nothing at the end of the input, when it returns nil;
  \<^item> the loop returns (it neither panics nor runs for ever) and its tokens are those after
    that first call followed by the later ones: it has stopped after that call, returning
    the lexer as the call left it, when the call met the end of the input or returned nil;
    else it returns what the loop returns from the next state on that lexer;
  \<^item> what the loop appended to the tokens it started with has one of two shapes: no
    \<^verbatim>\<open>ERROR\<close> token at all, a read having then met the end of the input; or exactly one
    \<^verbatim>\<open>ERROR\<close> token, which is the last one;
  \<^item> \<open>lex\<close> returns the tokens of the loop started in \<^verbatim>\<open>lexAny\<close> on the new lexer, and when
    they hold no \<^verbatim>\<open>ERROR\<close> token the whole input has been read.
\<close>

theorem C4_lex_single_trailing_error:
  "(\<exists>st' l1 new l' rest.
      step uni st (l\<lparr>readErr := False\<rparr>) = Some (st', l1) \<and> tokens l1 = tokens l @ new \<and>
      (case st' of
         Some s \<Rightarrow> list_all (\<lambda>t. typ' t \<noteq> ERROR) new
       | None \<Rightarrow> (\<exists>msg. new = [\<lparr>typ' = ERROR, text' = msg\<rparr>]) \<or> (new = [] \<and> readErr l1)) \<and>
      lexLoop uni st l = Some l' \<and> tokens l' = tokens l1 @ rest \<and>
      (((readErr l1 \<or> st' = None) \<and> l' = l1) \<or>
       (\<exists>s. st' = Some s \<and> \<not> readErr l1 \<and> lexLoop uni s l1 = Some l')) \<and>
      ((list_all (\<lambda>t. typ' t \<noteq> ERROR) (new @ rest) \<and> readErr l') \<or>
       (\<exists>pre msg. new @ rest = pre @ [\<lparr>typ' = ERROR, text' = msg\<rparr>] \<and>
          list_all (\<lambda>t. typ' t \<noteq> ERROR) pre))) \<and>
   (\<exists>l'. lexLoop uni LexAny (newLexer rs) = Some l' \<and> lex uni rs = Some (tokens l') \<and>
      ((list_all (\<lambda>t. typ' t \<noteq> ERROR) (tokens l') \<and> readErr l' \<and> off l' = length rs) \<or>
       (\<exists>pre msg. tokens l' = pre @ [\<lparr>typ' = ERROR, text' = msg\<rparr>] \<and>
          list_all (\<lambda>t. typ' t \<noteq> ERROR) pre)))"
proof (rule conjI)
  let ?l0 = "l\<lparr>readErr := False\<rparr>"
  let ?E = "\<lambda>new l'. (noError new \<and> readErr l') \<or>
       (\<exists>pre msg. new = pre @ [\<lparr>typ' = ERROR, text' = msg\<rparr>] \<and> noError pre)"
  from step_total obtain st' l1 where stp: "step uni st ?l0 = Some (st', l1)"
    and s: "stepsTo ?l0 st' l1" by blast
  from s obtain new where new: "tokens l1 = tokens l @ new"
    and shape1: "case st' of
         Some s \<Rightarrow> noError new
       | None \<Rightarrow> (\<exists>msg. new = [\<lparr>typ' = ERROR, text' = msg\<rparr>]) \<or> (new = [] \<and> readErr l1)"
    by (cases st') (auto simp: stepsTo_def)
  have "\<exists>l' rest. lexLoop uni st l = Some l' \<and> tokens l' = tokens l1 @ rest \<and>
      (((readErr l1 \<or> st' = None) \<and> l' = l1) \<or>
       (\<exists>s. st' = Some s \<and> \<not> readErr l1 \<and> lexLoop uni s l1 = Some l')) \<and> ?E (new @ rest) l'"
  proof (cases "readErr l1 \<or> st' = None")
    case True
    with stp have eq: "lexLoop uni st l = Some l1"
      by (subst lexLoop.simps) (auto split: option.splits)
    from True shape1 have "?E new l1"
      by (cases st') (auto simp: noError_def)
    with eq True have "lexLoop uni st l = Some l1 \<and> tokens l1 = tokens l1 @ [] \<and>
        (((readErr l1 \<or> st' = None) \<and> l1 = l1) \<or>
         (\<exists>s. st' = Some s \<and> \<not> readErr l1 \<and> lexLoop uni s l1 = Some l1)) \<and> ?E (new @ []) l1"
      by simp
    then show ?thesis by blast
  next
    case False
    then obtain s' where st': "st' = Some s'" and ne: "\<not> readErr l1" by auto
    with stp have eq: "lexLoop uni st l = lexLoop uni s' l1" by (subst lexLoop.simps) simp
    from lexLoop_total[of uni s' l1] obtain l' rest where
      r: "lexLoop uni s' l1 = Some l'" "tokens l' = tokens l1 @ rest" and sh: "?E rest l'"
      by blast
    from shape1 st' have n1: "noError new" by simp
    from sh have "?E (new @ rest) l'"
    proof (elim disjE exE conjE)
      assume "noError rest" "readErr l'"
      with n1 show ?thesis by simp
    next
      fix pre msg
      assume "rest = pre @ [\<lparr>typ' = ERROR, text' = msg\<rparr>]" "noError pre"
      with n1 have "new @ rest = (new @ pre) @ [\<lparr>typ' = ERROR, text' = msg\<rparr>] \<and>
          noError (new @ pre)" by simp
      then show ?thesis by blast
    qed
    with r st' ne show ?thesis unfolding eq by auto
  qed
  with stp new shape1 show "\<exists>st' l1 new l' rest.
      step uni st (l\<lparr>readErr := False\<rparr>) = Some (st', l1) \<and> tokens l1 = tokens l @ new \<and>
      (case st' of
         Some s \<Rightarrow> list_all (\<lambda>t. typ' t \<noteq> ERROR) new
       | None \<Rightarrow> (\<exists>msg. new = [\<lparr>typ' = ERROR, text' = msg\<rparr>]) \<or> (new = [] \<and> readErr l1)) \<and>
      lexLoop uni st l = Some l' \<and> tokens l' = tokens l1 @ rest \<and>
      (((readErr l1 \<or> st' = None) \<and> l' = l1) \<or>
       (\<exists>s. st' = Some s \<and> \<not> readErr l1 \<and> lexLoop uni s l1 = Some l')) \<and>
      ((list_all (\<lambda>t. typ' t \<noteq> ERROR) (new @ rest) \<and> readErr l') \<or>
       (\<exists>pre msg. new @ rest = pre @ [\<lparr>typ' = ERROR, text' = msg\<rparr>] \<and>
          list_all (\<lambda>t. typ' t \<noteq> ERROR) pre))"
    unfolding noError_def by blast
next
  have i: "inv (newLexer rs)" by (simp add: inv_def newLexer_def)
  from lexLoop_total[of uni LexAny "newLexer rs"] i obtain l' new where
    r: "lexLoop uni LexAny (newLexer rs) = Some l'" "src l' = rs" "inv l'" "tokens l' = new"
    and sh: "(noError new \<and> readErr l') \<or>
       (\<exists>pre msg. new = pre @ [\<lparr>typ' = ERROR, text' = msg\<rparr>] \<and> noError pre)"
    by (auto simp: newLexer_def)
  from r(2,3) have "readErr l' \<longrightarrow> off l' = length rs" by (simp add: inv_def)
  with r sh show "\<exists>l'. lexLoop uni LexAny (newLexer rs) = Some l' \<and> lex uni rs = Some (tokens l') \<and>
      ((list_all (\<lambda>t. typ' t \<noteq> ERROR) (tokens l') \<and> readErr l' \<and> off l' = length rs) \<or>
       (\<exists>pre msg. tokens l' = pre @ [\<lparr>typ' = ERROR, text' = msg\<rparr>] \<and>
          list_all (\<lambda>t. typ' t \<noteq> ERROR) pre))"
    by (auto simp: lex_def noError_def)
qed

subsection \<open>Reading ASCII text at a known position\<close>

lemma read_some:
  "off l < length (src l) \<Longrightarrow>
     lexer_read l =
       (int (runeOf (src l ! off l)),
        l\<lparr>off := off l + 1, token := token l @ encodeRune (runeOf (src l ! off l)),
          runeSize := sizeOf (src l ! off l)\<rparr>)"
  by (simp add: lexer_read_def)

lemma read_eof:
  "length (src l) \<le> off l \<Longrightarrow> lexer_read l = (eof, l\<lparr>readErr := True, runeSize := 0\<rparr>)"
  by (simp add: lexer_read_def)

lemma encodeRune_ascii: "of_char c < (128::nat) \<Longrightarrow> encodeRune (of_char c) = [c]"
  by (simp add: encodeRune_def)

lemma read_ascii:
  assumes "off l < length (src l)" and "src l ! off l = Decoded (of_char c)"
    and "of_char c < (128::nat)"
  shows "lexer_read l =
           (of_char c, l\<lparr>off := off l + 1, token := token l @ [c], runeSize := 1\<rparr>)"
  using assms by (simp add: read_some encodeRune_ascii of_nat_of_char)

lemma containsRune_of_char_iff: "containsRune v (of_char c) \<longleftrightarrow> c \<in> set v"
proof -
  have "0 \<le> int (of_char c)" by simp
  then have "0 \<le> (of_char c :: int)" unfolding of_nat_of_char .
  then have "(of_char c :: int) \<noteq> - 1" by linarith
  then show ?thesis by (auto simp: containsRune_def)
qed

text \<open>
  A run of ASCII bytes of the set up to the end of the input: the loop reads them all and
  then fails on the end of the input.
\<close>

lemma readRun_to_end:
  assumes "\<forall>c\<in>set w. c \<in> set v \<and> of_char c < (128::nat)"
    and "src l = runesOf (p @ w)" and "off l = length p"
  shows "readRun v l =
           l\<lparr>off := length (src l), token := token l @ w, readErr := True, runeSize := 0\<rparr>"
  using assms
proof (induction w arbitrary: l p)
  case Nil
  then show ?case
    by (subst readRun.simps) (simp add: read_eof containsRune_def runesOf_def)
next
  case (Cons c w)
  from Cons.prems have lt: "off l < length (src l)"
    and nth: "src l ! off l = Decoded (of_char c)"
    by (simp_all add: nth_append runesOf_def)
  from Cons.prems have c: "c \<in> set v" "of_char c < (128::nat)" by simp_all
  let ?l1 = "l\<lparr>off := off l + 1, token := token l @ [c], runeSize := 1\<rparr>"
  have rd: "lexer_read l = (of_char c, ?l1)"
    by (rule read_ascii[OF lt nth c(2)])
  have "readRun v l = readRun v ?l1"
    using rd c by (subst readRun.simps) (simp add: containsRune_of_char_iff)
  also have "\<dots> = ?l1\<lparr>off := length (src ?l1), token := token ?l1 @ w, readErr := True,
                        runeSize := 0\<rparr>"
    using Cons.prems by (intro Cons.IH[where p = "p @ [c]"]) simp_all
  finally show ?case by simp
qed


subsection \<open>A keyword with a sign suffix\<close>

lemma atom_chars_ascii: "\<forall>x\<in>set (letters @ digits @ ''_''). of_char x < (128::nat)"
  by (simp add: letters_def digits_def)

lemma letters_not_blank: "c \<in> set letters \<Longrightarrow> c \<notin> set [tab, CHR '' '']"
  by (auto simp: letters_def)

lemma suffix_chars:
  "CHR ''_'' \<in> set (letters @ digits @ ''_'')" "CHR ''s'' \<in> set (letters @ digits @ ''_'')"
  "CHR ''u'' \<in> set (letters @ digits @ ''_'')"
  by (simp_all add: letters_def)

lemma lex_keyword_suffix:
  assumes c: "c \<in> set letters"
    and k: "\<forall>x\<in>set (c # cs). x \<in> set (letters @ digits @ ''_'')"
    and a: "atom (c # cs) = Some t"
    and sfx: "sfx = ''_s'' \<and> sg = S \<and> sn = ''s'' \<or> sfx = ''_u'' \<and> sg = U \<and> sn = ''u''"
  shows "lex uni (runesOf ((c # cs) @ sfx)) =
           Some [tok t (c # cs), tok UNDERSCORE ''_'', tok sg sn]"
proof -
  let ?w = "(c # cs) @ sfx"
  let ?v = "letters @ digits @ ''_''"
  let ?l0 = "\<lparr>src = runesOf ?w, off = 0, readErr = False, token = [], runeSize = 0, tokens = []\<rparr>"
  let ?l1 = "\<lparr>src = runesOf ?w, off = 1, readErr = False, token = [c], runeSize = 1, tokens = []\<rparr>"
  let ?L = "\<lparr>src = runesOf ?w, off = length ?w, readErr = True, token = ?w, runeSize = 0,
             tokens = []\<rparr>"
  from c atom_chars_ascii have casc: "of_char c < (128::nat)" by simp
  have rd0: "lexer_read ?l0 = (of_char c, ?l1)"
    using read_ascii[of ?l0 c] casc by (simp add: runesOf_def)
  have "readRun [tab, CHR '' ''] ?l0 = ?l1"
    using rd0 letters_not_blank[OF c]
    by (subst readRun.simps) (simp add: containsRune_of_char_iff)
  then have d: "discardRun [tab, CHR '' ''] ?l0 = Some ?l0"
    by (simp add: discardRun_def lexer_unread_def)
  have any: "lexAny uni ?l0 = Some (Some LexAtom, ?l1)"
    using d rd0 c by (simp add: lexAny_def containsRune_of_char_iff)
  from k have "\<forall>x\<in>set cs. x \<in> set ?v" by simp
  moreover from sfx suffix_chars have "\<forall>x\<in>set sfx. x \<in> set ?v"
    by (elim disjE conjE) simp_all
  ultimately have "\<forall>x\<in>set (cs @ sfx). x \<in> set ?v"
    by (simp add: ball_Un)
  with atom_chars_ascii
  have rest: "\<forall>x\<in>set (cs @ sfx). x \<in> set ?v \<and> of_char x < (128::nat)"
    by blast
  have "readRun ?v ?l1 = ?L"
    using readRun_to_end[OF rest, of ?l1 "[c]"] by (simp add: runesOf_def)
  then have ar: "acceptRun ?v ?l1 = Some ?L"
    by (simp add: acceptRun_def lexer_unread_def)
  have suf: "HasSuffix ?w sfx" "TrimSuffix ?w sfx = c # cs" "sfx = ''_u'' \<longrightarrow> \<not> HasSuffix ?w ''_s''"
    using sfx by (auto simp: HasSuffix_def TrimSuffix_def)
  have at: "lexAtom ?l1 =
      Some (Some LexAny,
        ?L\<lparr>tokens := [tok t (c # cs), tok UNDERSCORE ''_'', tok sg sn]\<rparr>)"
  proof (cases "sfx = ''_s''")
    case True
    with sfx have "sg = S" "sn = ''s''" by auto
    with True suf ar a show ?thesis
      by (simp add: lexAtom_def tok_def Let_def)
  next
    case False
    with sfx have u: "sfx = ''_u''" "sg = U" "sn = ''u''" by auto
    with suf ar a show ?thesis
      by (simp add: lexAtom_def tok_def Let_def)
  qed
  have "lexLoop uni LexAny ?l0 = lexLoop uni LexAtom ?l1"
    using any by (subst lexLoop.simps) simp
  also have "\<dots> = Some (?L\<lparr>tokens := [tok t (c # cs), tok UNDERSCORE ''_'', tok sg sn]\<rparr>)"
    using at by (subst lexLoop.simps) simp
  finally show ?thesis
    by (simp add: lex_def newLexer_def)
qed


lemma atom_table_keys:
  "\<forall>(k, t)\<in>set atom_table. k \<noteq> [] \<and> hd k \<in> set letters \<and>
     (\<forall>x\<in>set k. x \<in> set (letters @ digits @ ''_''))"
  by (simp add: atom_table_def letters_def digits_def)

lemma atom_table_distinct: "distinct (map fst atom_table)"
  by (simp add: atom_table_def)

text \<open>
  Claim C8. For every reserved keyword \<open>k\<close> of the keyword table, lexing \<open>k\<close> immediately
  followed by \<open>_s\<close> yields exactly three tokens in order: the keyword token of \<open>k\<close> with text
  \<open>k\<close>, an UNDERSCORE token with text \<open>_\<close> and the sign token S with text \<open>s\<close>; with \<open>_u\<close> the
  last token is U with text \<open>u\<close>. This holds whatever the Unicode tables are.
\<close>

theorem C8_keyword_sign_suffix:
  "\<forall>(k, t)\<in>set atom_table.
     lex uni (runesOf (k @ ''_s'')) = Some [tok t k, tok UNDERSCORE ''_'', tok S ''s''] \<and>
     lex uni (runesOf (k @ ''_u'')) = Some [tok t k, tok UNDERSCORE ''_'', tok U ''u'']"
proof (clarify, intro conjI)
  fix k t
  assume kt: "(k, t) \<in> set atom_table"
  from kt atom_table_keys have ne: "k \<noteq> []" and h: "hd k \<in> set letters"
    and all: "\<forall>x\<in>set k. x \<in> set (letters @ digits @ ''_'')"
    by blast+
  from ne obtain c cs where k: "k = c # cs" by (cases k) auto
  from kt have a: "atom k = Some t"
    unfolding atom_def by (rule map_of_is_SomeI[OF atom_table_distinct])
  from h k have c: "c \<in> set letters" by simp
  show "lex uni (runesOf (k @ ''_s'')) = Some [tok t k, tok UNDERSCORE ''_'', tok S ''s'']"
    unfolding k
    by (rule lex_keyword_suffix[OF c all[unfolded k] a[unfolded k]]) simp
  show "lex uni (runesOf (k @ ''_u'')) = Some [tok t k, tok UNDERSCORE ''_'', tok U ''u'']"
    unfolding k
    by (rule lex_keyword_suffix[OF c all[unfolded k] a[unfolded k]]) simp
qed

theorem C8_keyword_sign_suffix_witness:
  "(''trunc'', TRUNC) \<in> set atom_table \<and>
   lex asciiTables (runesOf ''trunc_s'') =
     Some [\<lparr>typ' = TRUNC, text' = ''trunc''\<rparr>, \<lparr>typ' = UNDERSCORE, text' = ''_''\<rparr>,
           \<lparr>typ' = S, text' = ''s''\<rparr>] \<and>
   lex asciiTables (runesOf ''trunc_u'') =
     Some [\<lparr>typ' = TRUNC, text' = ''trunc''\<rparr>, \<lparr>typ' = UNDERSCORE, text' = ''_''\<rparr>,
           \<lparr>typ' = U, text' = ''u''\<rparr>]"
proof -
  have h: "(''trunc'', TRUNC) \<in> set atom_table"
    by (simp add: atom_table_def)
  from bspec[OF C8_keyword_sign_suffix[of asciiTables] h] h show ?thesis
    by (simp add: tok_def)
qed

subsection \<open>Unterminated string literals\<close>

lemma of_char_small: "(of_char c :: int) \<noteq> 65533"
proof -
  have "int (of_char c) < 256"
    using nat_of_char_less_256[of c] by linarith
  then show ?thesis
    unfolding of_nat_of_char by linarith
qed

lemma containsRune_runeOf_iff: "containsRune v (int (runeOf x)) \<longleftrightarrow> x \<in> set (runesOf v)"
proof (cases x)
  case (Decoded n)
  have "\<And>c. (int n = of_char c) = (n = of_char c)"
    by (metis of_nat_of_char of_nat_eq_iff)
  then show ?thesis
    using Decoded by (auto simp: containsRune_def runesOf_def image_iff)
next
  case InvalidByte
  then show ?thesis
    by (auto simp: containsRune_def runesOf_def of_char_small)
qed

lemma accept_yes:
  assumes "off l < length (src l)" and "\<not> readErr l" and "src l ! off l \<in> set (runesOf v)"
  shows "\<exists>l'. lexer_accept v l = Some (True, l') \<and> src l' = src l \<and> off l' = Suc (off l) \<and>
           \<not> readErr l' \<and> tokens l' = tokens l"
  using assms by (simp add: lexer_accept_def lexer_read_def containsRune_runeOf_iff)

lemma accept_no:
  assumes "off l < length (src l)" and "\<not> readErr l" and "src l ! off l \<notin> set (runesOf v)"
  shows "\<exists>l'. lexer_accept v l = Some (False, l') \<and> src l' = src l \<and> off l' = off l \<and>
           \<not> readErr l' \<and> tokens l' = tokens l"
  using assms sizeOf_bounds[of "src l ! off l"] sizeOf_le_add[of "src l ! off l"]
  by (simp add: lexer_accept_def lexer_read_def lexer_unread_def containsRune_runeOf_iff)

lemma accept_eof:
  assumes "length (src l) \<le> off l"
  shows "\<exists>l'. lexer_accept v l = Some (False, l') \<and> src l' = src l \<and> off l' = off l \<and>
           readErr l' \<and> tokens l' = tokens l"
  using assms by (simp add: lexer_accept_def lexer_read_def lexer_unread_def containsRune_def)


lemma read_next:
  assumes "off l < length (src l)"
  shows "\<exists>l1. lexer_read l = (int (runeOf (src l ! off l)), l1) \<and> src l1 = src l \<and>
           off l1 = Suc (off l) \<and> readErr l1 = readErr l \<and> tokens l1 = tokens l"
  using assms by (simp add: lexer_read_def)

lemma illegalEscape_other: "r \<noteq> rn backslash \<Longrightarrow> illegalEscape r l = Some (False, l)"
  by (simp add: illegalEscape_def)

lemma illegalEscape_simple:
  assumes "off l < length (src l)" and "\<not> readErr l"
    and "src l ! off l \<in> set (runesOf (''nt'' @ [backslash, squote, dquote]))"
  shows "\<exists>l'. illegalEscape (rn backslash) l = Some (False, l') \<and> src l' = src l \<and>
           off l' = Suc (off l) \<and> \<not> readErr l' \<and> tokens l' = tokens l"
proof -
  from accept_yes[OF assms] obtain l1
    where "lexer_accept (''nt'' @ [backslash, squote, dquote]) l = Some (True, l1)"
      and "src l1 = src l" "off l1 = Suc (off l)" "\<not> readErr l1" "tokens l1 = tokens l"
    by blast
  then show ?thesis
    by (simp add: illegalEscape_def)
qed

lemma illegalEscape_hex:
  assumes "Suc (off l) < length (src l)" and "\<not> readErr l"
    and "src l ! off l \<notin> set (runesOf (''nt'' @ [backslash, squote, dquote]))"
    and "src l ! off l \<in> set (runesOf hexDigits)"
    and "src l ! Suc (off l) \<in> set (runesOf hexDigits)"
  shows "\<exists>l'. illegalEscape (rn backslash) l = Some (False, l') \<and> src l' = src l \<and>
           off l' = Suc (Suc (off l)) \<and> \<not> readErr l' \<and> tokens l' = tokens l"
proof -
  from assms(1) have lt: "off l < length (src l)" by simp
  from accept_no[OF lt assms(2,3)] obtain l1
    where a1: "lexer_accept (''nt'' @ [backslash, squote, dquote]) l = Some (False, l1)"
      and l1: "src l1 = src l" "off l1 = off l" "\<not> readErr l1" "tokens l1 = tokens l"
    by blast
  from accept_yes[of l1 hexDigits] lt assms(4) l1 obtain l2
    where a2: "lexer_accept hexDigits l1 = Some (True, l2)"
      and l2: "src l2 = src l" "off l2 = Suc (off l)" "\<not> readErr l2" "tokens l2 = tokens l"
    by auto
  from accept_yes[of l2 hexDigits] assms(1,5) l2 obtain l3
    where a3: "lexer_accept hexDigits l2 = Some (True, l3)"
      and l3: "src l3 = src l" "off l3 = Suc (Suc (off l))" "\<not> readErr l3" "tokens l3 = tokens l"
    by auto
  from a1 a2 a3 l3 show ?thesis
    by (simp add: illegalEscape_def)
qed

lemma illegalEscape_eof:
  assumes "length (src l) \<le> off l"
  shows "\<exists>l'. illegalEscape (rn backslash) l = Some (True, l') \<and> tokens l' = tokens l"
proof -
  from accept_eof[OF assms] obtain l1
    where a1: "lexer_accept (''nt'' @ [backslash, squote, dquote]) l = Some (False, l1)"
      and l1: "src l1 = src l" "off l1 = off l" "tokens l1 = tokens l"
    by blast
  from accept_eof[of l1 hexDigits] assms l1 obtain l2
    where a2: "lexer_accept hexDigits l1 = Some (False, l2)" and l2: "tokens l2 = tokens l"
    by auto
  from a1 a2 l2 show ?thesis
    by (simp add: illegalEscape_def)
qed

lemma lexString_next:
  assumes "\<not> readErr l" and "lexer_read l = (r, l1)" and "r \<noteq> rn dquote"
    and "illegalEscape r l1 = Some (False, l2)"
    and "r \<noteq> rn newline" and "r \<noteq> eof" and "\<not> (0x00 \<le> r \<and> r \<le> 0x1f)" and "r \<noteq> 0x7f"
  shows "lexString uni l = lexString uni l2"
  using assms by (subst lexString.simps) auto

lemma lexString_body:
  assumes "stringBody body" and "src l = pre @ body @ rest" and "off l = length pre"
    and "\<not> readErr l"
  shows "\<exists>l'. lexString uni l = lexString uni l' \<and> src l' = src l \<and>
           off l' = length pre + length body \<and> \<not> readErr l' \<and> tokens l' = tokens l"
  using assms
proof (induction body arbitrary: l pre rule: stringBody.induct)
  case 1
  then show ?case by auto
next
  case (2 x xs)
  from "2.prems" have lt: "off l < length (src l)" and nth: "src l ! off l = x"
    by simp_all
  from read_next[OF lt] nth "2.prems" obtain l1
    where rd: "lexer_read l = (int (runeOf x), l1)"
      and l1: "src l1 = src l" "off l1 = Suc (length pre)" "\<not> readErr l1" "tokens l1 = tokens l"
    by auto
  show ?case
  proof (cases "x = Decoded 0x5C")
    case False
    with "2.prems"(1) have p: "plainRune x" and b: "stringBody xs" by simp_all
    from False have nb: "int (runeOf x) \<noteq> rn backslash" by (cases x) simp_all
    from p have r: "int (runeOf x) \<noteq> rn dquote" "int (runeOf x) \<noteq> rn newline"
      "int (runeOf x) \<noteq> eof" "\<not> (0x00 \<le> int (runeOf x) \<and> int (runeOf x) \<le> 0x1f)"
      "int (runeOf x) \<noteq> 0x7f"
      by (simp_all add: plainRune_def)
    have "lexString uni l = lexString uni l1"
      by (rule lexString_next[OF "2.prems"(4) rd r(1) illegalEscape_other[OF nb] r(2-5)])
    moreover from "2.IH"(3)[OF False b, of l1 "pre @ [x]"] l1 "2.prems"
    obtain l' where "lexString uni l1 = lexString uni l'" "src l' = src l1"
      "off l' = length (pre @ [x]) + length xs" "\<not> readErr l'" "tokens l' = tokens l1"
      by auto
    ultimately show ?thesis using l1 by auto
  next
    case True
    then have r: "int (runeOf x) = rn backslash" by simp
    from True "2.prems"(1) obtain y ys where xs: "xs = y # ys"
      by (cases xs) simp_all
    from "2.prems" xs l1 have lt1: "off l1 < length (src l1)" and nth1: "src l1 ! off l1 = y"
      by (simp_all add: nth_append)
    show ?thesis
    proof (cases "y \<in> set (runesOf (''nt'' @ [backslash, squote, dquote]))")
      case simple: True
      with True xs "2.prems"(1) have b: "stringBody ys" by simp
      from illegalEscape_simple[OF lt1 l1(3)] nth1 simple l1 obtain l2
        where ie: "illegalEscape (rn backslash) l1 = Some (False, l2)"
          and l2: "src l2 = src l" "off l2 = Suc (Suc (length pre))" "\<not> readErr l2"
            "tokens l2 = tokens l"
        by auto
      have "lexString uni l = lexString uni l2"
        using lexString_next[OF "2.prems"(4) rd[unfolded r] _ ie] by simp
      moreover from "2.IH"(1)[OF True xs simple b, of l2 "pre @ [x, y]"] l2 "2.prems" xs
      obtain l' where "lexString uni l2 = lexString uni l'" "src l' = src l2"
        "off l' = length (pre @ [x, y]) + length ys" "\<not> readErr l'" "tokens l' = tokens l2"
        by auto
      ultimately show ?thesis using l2 xs by auto
    next
      case notsimple: False
      with True xs "2.prems"(1) obtain z zs where ys: "ys = z # zs"
        and hy: "y \<in> set (runesOf hexDigits)" and hz: "z \<in> set (runesOf hexDigits)"
        and b: "stringBody zs"
        by (cases ys) simp_all
      from "2.prems" xs ys l1 have lt2: "Suc (off l1) < length (src l1)"
        and nth2: "src l1 ! Suc (off l1) = z"
        by (simp_all add: nth_append)
      from illegalEscape_hex[OF lt2 l1(3)] nth1 nth2 notsimple hy hz l1 obtain l2
        where ie: "illegalEscape (rn backslash) l1 = Some (False, l2)"
          and l2: "src l2 = src l" "off l2 = Suc (Suc (Suc (length pre)))" "\<not> readErr l2"
            "tokens l2 = tokens l"
        by auto
      have "lexString uni l = lexString uni l2"
        using lexString_next[OF "2.prems"(4) rd[unfolded r] _ ie] by simp
      moreover from "2.IH"(2)[OF True xs notsimple ys b, of l2 "pre @ [x, y, z]"] l2 "2.prems" xs ys
      obtain l' where "lexString uni l2 = lexString uni l'" "src l' = src l2"
        "off l' = length (pre @ [x, y, z]) + length zs" "\<not> readErr l'" "tokens l' = tokens l2"
        by auto
      ultimately show ?thesis using l2 xs ys by auto
    qed
  qed
qed


lemma lexString_eof:
  assumes "\<not> readErr l" and "length (src l) \<le> off l"
  shows "\<exists>l'. lexString uni l = Some (None, l') \<and>
           tokens l' = tokens l @ [tok ERROR ''unclosed string literal'']"
  using assms
  by (subst lexString.simps) (simp add: lexer_read_def illegalEscape_def errorf_def tok_def)

lemma lexString_newline:
  assumes "\<not> readErr l" and "off l < length (src l)" and "src l ! off l = Decoded 0x0A"
  shows "\<exists>l'. lexString uni l = Some (None, l') \<and>
           tokens l' = tokens l @ [tok ERROR ''unclosed string literal'']"
  using assms
  by (subst lexString.simps) (simp add: lexer_read_def illegalEscape_def errorf_def tok_def)

lemma fmtU_backslash: "fmtU uni (rn backslash) = ''U+005C '' @ [squote, backslash, squote]"
  by (simp add: fmtU_def hexU.simps hexDigitU_def IsPrint_def encodeRune_def replicate_numeral
        char_of_def bit_Suc_0_iff cong: eval_cong)

lemma lexString_dangling:
  assumes "\<not> readErr l" and "off l < length (src l)" and "src l ! off l = Decoded 0x5C"
    and "length (src l) = Suc (off l)"
  shows "\<exists>l'. lexString uni l = Some (None, l') \<and>
           tokens l' = tokens l @
             [tok ERROR (''illegal escape in string literal: U+005C '' @
                         [squote, backslash, squote])]"
proof -
  from read_next[OF assms(2)] assms obtain l1
    where rd: "lexer_read l = (rn backslash, l1)"
      and l1: "src l1 = src l" "off l1 = Suc (off l)" "tokens l1 = tokens l"
    by auto
  from illegalEscape_eof[of l1] l1 assms(4) obtain l2
    where ie: "illegalEscape (rn backslash) l1 = Some (True, l2)" and l2: "tokens l2 = tokens l"
    by auto
  have "fmtU uni 92 = ''U+005C '' @ [squote, backslash, squote]"
    using fmtU_backslash[of uni] by simp
  with assms(1) rd ie l2 show ?thesis
    by (subst lexString.simps) (simp add: errorf_def tok_def)
qed

lemma lex_string_start:
  assumes "lexString uni
             \<lparr>src = Decoded 0x22 # xs, off = 1, readErr = False, token = [dquote], runeSize = 1,
                tokens = []\<rparr> = Some (None, l')"
  shows "lex uni (Decoded 0x22 # xs) = Some (tokens l')"
proof -
  let ?l0 = "\<lparr>src = Decoded 0x22 # xs, off = 0, readErr = False, token = [], runeSize = 0,
               tokens = []\<rparr>"
  let ?l1 = "\<lparr>src = Decoded 0x22 # xs, off = 1, readErr = False, token = [dquote],
               runeSize = 1, tokens = []\<rparr>"
  have rd0: "lexer_read ?l0 = (rn dquote, ?l1)"
    by (simp add: lexer_read_def encodeRune_def char_of_def bit_Suc_0_iff)
  have "readRun [tab, CHR '' ''] ?l0 = ?l1"
    using rd0 by (subst readRun.simps) (simp add: containsRune_def)
  then have d: "discardRun [tab, CHR '' ''] ?l0 = Some ?l0"
    by (simp add: discardRun_def lexer_unread_def)
  have nl: "\<not> containsRune letters (rn dquote)"
    by (simp add: containsRune_def letters_def)
  have any: "lexAny uni ?l0 = Some (Some LexString, ?l1)"
    using d rd0 nl by (simp add: lexAny_def)
  have "lexLoop uni LexAny ?l0 = lexLoop uni LexString ?l1"
    using any by (subst lexLoop.simps) simp
  also have "\<dots> = Some l'"
    using assms by (subst lexLoop.simps) simp
  finally show ?thesis
    by (simp add: lex_def newLexer_def)
qed

lemma lex_unclosed:
  assumes "stringBody body" and "rest = [] \<or> (\<exists>rest'. rest = Decoded 0x0A # rest')"
  shows "lex uni (Decoded 0x22 # body @ rest) = Some [tok ERROR ''unclosed string literal'']"
proof -
  let ?l1 = "\<lparr>src = Decoded 0x22 # body @ rest, off = 1, readErr = False, token = [dquote],
               runeSize = 1, tokens = []\<rparr>"
  from lexString_body[OF assms(1), of ?l1 "[Decoded 0x22]" rest uni] obtain l2
    where eq: "lexString uni ?l1 = lexString uni l2"
      and l2: "src l2 = Decoded 0x22 # body @ rest" "off l2 = Suc (length body)" "\<not> readErr l2"
        "tokens l2 = []"
    by auto
  from assms(2) have "\<exists>l'. lexString uni l2 = Some (None, l') \<and>
      tokens l' = tokens l2 @ [tok ERROR ''unclosed string literal'']"
  proof
    assume "rest = []"
    with l2 show ?thesis by (intro lexString_eof) simp_all
  next
    assume "\<exists>rest'. rest = Decoded 0x0A # rest'"
    with l2 show ?thesis by (intro lexString_newline) (auto simp: nth_append)
  qed
  with eq l2 obtain l' where "lexString uni ?l1 = Some (None, l')"
    "tokens l' = [tok ERROR ''unclosed string literal'']"
    by auto
  with lex_string_start[of uni "body @ rest" l'] show ?thesis by simp
qed

lemma lex_dangling_backslash:
  assumes "stringBody body"
  shows "lex uni (Decoded 0x22 # body @ [Decoded 0x5C]) =
           Some [tok ERROR (''illegal escape in string literal: U+005C '' @
                            [squote, backslash, squote])]"
proof -
  let ?l1 = "\<lparr>src = Decoded 0x22 # body @ [Decoded 0x5C], off = 1, readErr = False,
               token = [dquote], runeSize = 1, tokens = []\<rparr>"
  from lexString_body[OF assms(1), of ?l1 "[Decoded 0x22]" "[Decoded 0x5C]" uni] obtain l2
    where eq: "lexString uni ?l1 = lexString uni l2"
      and l2: "src l2 = Decoded 0x22 # body @ [Decoded 0x5C]" "off l2 = Suc (length body)"
        "\<not> readErr l2" "tokens l2 = []"
    by auto
  from l2 have "\<exists>l'. lexString uni l2 = Some (None, l') \<and>
      tokens l' = tokens l2 @ [tok ERROR (''illegal escape in string literal: U+005C '' @
                                          [squote, backslash, squote])]"
    by (intro lexString_dangling) (simp_all add: nth_append)
  with eq l2 obtain l' where "lexString uni ?l1 = Some (None, l')"
    "tokens l' = [tok ERROR (''illegal escape in string literal: U+005C '' @
                             [squote, backslash, squote])]"
    by auto
  with lex_string_start[of uni "body @ [Decoded 0x5C]" l'] show ?thesis by simp
qed

text \<open>
  Claim C7 says that every string literal that reaches a raw newline or the end of the input
  before its closing quote gives the single error \<open>unclosed string literal\<close>, also when the
  last character before the end of the input is a backslash. The code answers otherwise:
  for the two characters \<open>"\\<close> the switch of \<^verbatim>\<open>lexString\<close> tries the illegal escape before the
  end of the input.
\<close>

theorem C7_backslash_at_end_counterexample:
  "lex asciiTables [Decoded 0x22, Decoded 0x5C] =
     Some [\<lparr>typ' = ERROR,
            text' = ''illegal escape in string literal: U+005C '' @ [squote, backslash, squote]\<rparr>] \<and>
   ''illegal escape in string literal: U+005C '' @ [squote, backslash, squote] \<noteq>
     ''unclosed string literal''"
  by (simp add: lex_eval asciiTables_def cong: eval_cong)

text \<open>
  Claim C7, amended. Let the body of the literal, the deliveries after the opening quote,
  be made of plain runes (anything but the quote, the backslash, the control characters
  U+0000 to U+001F, the newline among them, and U+007F; a byte that is not valid UTF-8
  counts as plain) and of complete escapes (a backslash followed by one of \<open>n t \ ' "\<close> or by
  two hexadecimal digits). If the input ends after the body, or a raw newline follows it,
  \<open>lex\<close> returns the single token ERROR \<open>unclosed string literal\<close>. If a backslash follows the
  body and the input ends there, \<open>lex\<close> returns the single token ERROR
  \<open>illegal escape in string literal: U+005C '\'\<close> instead.
\<close>

theorem C7_unclosed_string_literal:
  assumes "stringBody body"
  shows "lex uni (Decoded 0x22 # body) = Some [tok ERROR ''unclosed string literal''] \<and>
         lex uni (Decoded 0x22 # body @ Decoded 0x0A # rest) =
           Some [tok ERROR ''unclosed string literal''] \<and>
         lex uni (Decoded 0x22 # body @ [Decoded 0x5C]) =
           Some [tok ERROR (''illegal escape in string literal: U+005C '' @
                            [squote, backslash, squote])]"
  using lex_unclosed[OF assms, of "[]" uni] lex_unclosed[OF assms, of "Decoded 0x0A # rest" uni]
    lex_dangling_backslash[OF assms, of uni]
  by simp

theorem C7_unclosed_string_literal_witness:
  "stringBody [Decoded 0x61, Decoded 0x5C, Decoded 0x6E, Decoded 0x5C, Decoded 0x35, Decoded 0x41,
               Decoded 0xE9, InvalidByte, Decoded 0x5C, Decoded 0x5C] \<and>
   lex asciiTables
     (Decoded 0x22 # [Decoded 0x61, Decoded 0x5C, Decoded 0x6E, Decoded 0x5C, Decoded 0x35,
                      Decoded 0x41, Decoded 0xE9, InvalidByte, Decoded 0x5C, Decoded 0x5C]) =
     Some [\<lparr>typ' = ERROR, text' = ''unclosed string literal''\<rparr>] \<and>
   lex asciiTables
     (Decoded 0x22 # [Decoded 0x61, Decoded 0x5C, Decoded 0x6E, Decoded 0x5C, Decoded 0x35,
                      Decoded 0x41, Decoded 0xE9, InvalidByte, Decoded 0x5C, Decoded 0x5C] @
      Decoded 0x0A # [Decoded 0x22]) =
     Some [\<lparr>typ' = ERROR, text' = ''unclosed string literal''\<rparr>] \<and>
   lex asciiTables
     (Decoded 0x22 # [Decoded 0x61, Decoded 0x5C, Decoded 0x6E, Decoded 0x5C, Decoded 0x35,
                      Decoded 0x41, Decoded 0xE9, InvalidByte, Decoded 0x5C, Decoded 0x5C] @
      [Decoded 0x5C]) =
     Some [\<lparr>typ' = ERROR,
            text' = ''illegal escape in string literal: U+005C '' @ [squote, backslash, squote]\<rparr>]"
proof -
  have h: "stringBody [Decoded 0x61, Decoded 0x5C, Decoded 0x6E, Decoded 0x5C, Decoded 0x35,
                       Decoded 0x41, Decoded 0xE9, InvalidByte, Decoded 0x5C, Decoded 0x5C]"
    by (simp add: plainRune_def runesOf_def hexDigits_def)
  from h C7_unclosed_string_literal[OF h, of asciiTables "[Decoded 0x22]", unfolded tok_def]
  show ?thesis
    by blast
qed

end
